theory Spec2Isabelle
  imports Main "HOL-Library.Multiset"
begin

section \<open>The A* grid search of main.c\<close>

text \<open>
  A shallow embedding of the search engine of \<^verbatim>\<open>src/main.c\<close>: the cell and queue
  types, the cost functions, the queue operations, the path drawing, one call of
  \<^verbatim>\<open>a_star\<close>, the barrier generator and the set-up done by \<^verbatim>\<open>main\<close>. The SDL window
  code only reads the grid and is left out.

  Conventions of the embedding.
  \<^item> The C \<^verbatim>\<open>int\<close> coordinates and counters are \<open>int\<close>; every value that occurs is far
    from the 32-bit limits (coordinates between -1 and 40, counters up to 1600).
  \<^item> The \<^verbatim>\<open>double\<close> cost fields only ever hold sums of the integer weights 10 and 14,
    which a double represents exactly; they are \<open>int\<close> here.
  \<^item> The global \<^verbatim>\<open>grid[CELL_COUNT][CELL_COUNT]\<close> is a function from positions to cells.
    Only the positions inside the array are cells of the program: every access whose
    index the source does not check is checked here, and an access outside the array
    is the error \<open>Out_of_bounds\<close> (undefined behaviour in C).
  \<^item> A \<^verbatim>\<open>Queue_Typedef\<close> is the array \<^verbatim>\<open>cells\<close> with the top index \<^verbatim>\<open>idx\<close>. The program
    reads only \<^verbatim>\<open>cells[0..idx]\<close> (an entry above \<^verbatim>\<open>idx\<close> is overwritten before it is
    read again), so the model keeps exactly these entries, as a list, and \<open>idx\<close> is
    its length minus one. A write at an index outside \<^verbatim>\<open>0..QUEUE_SIZE - 1\<close> is
    \<open>Out_of_bounds\<close>. \<^verbatim>\<open>closed_nodes\<close> with \<^verbatim>\<open>closed_nodes_count\<close> is modelled the same way.
\<close>

subsection \<open>Constants\<close>

definition CELL_COUNT :: int where
  "CELL_COUNT = 40"

definition QUEUE_SIZE :: int where
  "QUEUE_SIZE = CELL_COUNT * CELL_COUNT"

definition START_X :: int where
  "START_X = 3"

definition START_Y :: int where
  "START_Y = 8"

definition TARGET_X :: int where
  "TARGET_X = 38"

definition TARGET_Y :: int where
  "TARGET_Y = 38"

subsection \<open>Types\<close>

datatype CellState_Typedef =
  CELL_EMPTY | CELL_START | CELL_BARRIER | CELL_VISITED | CELL_NEIGHBOUR | CELL_PATH | CELL_TARGET

record CellPosition_Typedef =
  x :: int
  y :: int

record Cell_Typedef =
  position :: CellPosition_Typedef
  h_cost :: int
  g_cost :: int
  cost :: int
  state :: CellState_Typedef
  parent_position :: CellPosition_Typedef

record Queue_Typedef =
  cells :: "Cell_Typedef list"

type_synonym Grid = "CellPosition_Typedef \<Rightarrow> Cell_Typedef"

datatype error = Out_of_bounds

text \<open>The globals of the program: the grid, the open queue, the closed array (its
  count is the length of the list) and the flag.\<close>

record search_state =
  grid :: Grid
  open_nodes_queue :: Queue_Typedef
  closed_nodes :: "Cell_Typedef list"
  found_target :: bool

definition idx :: "Queue_Typedef \<Rightarrow> int" where
  "idx queue = int (length (cells queue)) - 1"

definition closed_nodes_count :: "search_state \<Rightarrow> int" where
  "closed_nodes_count s = int (length (closed_nodes s))"

text \<open>The bounds test the source writes out for a neighbour (lines 182-183) and in
  \<^verbatim>\<open>set_cell_colour\<close>; it is also the index range of \<^verbatim>\<open>grid\<close>.\<close>

definition in_grid :: "CellPosition_Typedef \<Rightarrow> bool" where
  "in_grid p = (\<not> (x p < 0 \<or> x p > CELL_COUNT - 1 \<or> y p < 0 \<or> y p > CELL_COUNT - 1))"

subsection \<open>Queue operations\<close>

definition is_full :: "Queue_Typedef \<Rightarrow> bool" where
  "is_full queue = (idx queue > QUEUE_SIZE - 1)"

definition is_empty_queue :: "Queue_Typedef \<Rightarrow> bool" where
  "is_empty_queue queue = (idx queue < 0)"

text \<open>\<^verbatim>\<open>queue->cells[++queue->idx] = cell\<close>: the index written is \<open>idx queue + 1\<close>.\<close>

definition enqueue :: "Queue_Typedef \<Rightarrow> Cell_Typedef \<Rightarrow> error + Queue_Typedef" where
  "enqueue queue cell =
     (if is_full queue then Inr queue
      else if 0 \<le> idx queue + 1 \<and> idx queue + 1 \<le> QUEUE_SIZE - 1
      then Inr (queue\<lparr>cells := cells queue @ [cell]\<rparr>)
      else Inl Out_of_bounds)"

text \<open>\<^verbatim>\<open>pop\<close> returns false on an empty queue (\<open>None\<close>), and otherwise the top entry
  \<^verbatim>\<open>cells[idx]\<close> together with the queue whose \<^verbatim>\<open>idx\<close> is one less.\<close>

definition pop :: "Queue_Typedef \<Rightarrow> (Cell_Typedef \<times> Queue_Typedef) option" where
  "pop queue =
     (if is_empty_queue queue then None
      else Some (last (cells queue), queue\<lparr>cells := butlast (cells queue)\<rparr>))"

subsection \<open>Sorting\<close>

definition compare_cell_cost :: "Cell_Typedef \<Rightarrow> Cell_Typedef \<Rightarrow> int" where
  "compare_cell_cost qA qB = (if cost qA < cost qB then 1 else if cost qA > cost qB then - 1 else 0)"

text \<open>The C library's \<^verbatim>\<open>qsort\<close> with a comparison function: the result is ordered so
  that the comparison of an earlier with a later element is never positive. The order
  of elements that compare equal is left open by the C standard; the model is an
  insertion sort that keeps them in their order.\<close>

fun qsort_insert :: "('a \<Rightarrow> 'a \<Rightarrow> int) \<Rightarrow> 'a \<Rightarrow> 'a list \<Rightarrow> 'a list" where
  "qsort_insert cmp a [] = [a]"
| "qsort_insert cmp a (b # bs) = (if cmp a b \<le> 0 then a # b # bs else b # qsort_insert cmp a bs)"

definition qsort :: "('a \<Rightarrow> 'a \<Rightarrow> int) \<Rightarrow> 'a list \<Rightarrow> 'a list" where
  "qsort cmp xs = foldr (qsort_insert cmp) xs []"

subsection \<open>Cost functions\<close>

definition compute_distance :: "int \<Rightarrow> int \<Rightarrow> int \<Rightarrow> int \<Rightarrow> int" where
  "compute_distance x1 y1 x2 y2 =
     (if \<bar>x1 - x2\<bar> > \<bar>y1 - y2\<bar>
      then 14 * \<bar>y1 - y2\<bar> + 10 * (\<bar>x1 - x2\<bar> - \<bar>y1 - y2\<bar>)
      else 14 * \<bar>x1 - x2\<bar> + 10 * (\<bar>y1 - y2\<bar> - \<bar>x1 - x2\<bar>))"

definition g :: "int \<Rightarrow> int \<Rightarrow> int" where
  "g x1 y1 = compute_distance x1 y1 START_X START_Y"

definition h :: "int \<Rightarrow> int \<Rightarrow> int" where
  "h x1 y1 = compute_distance x1 y1 TARGET_X TARGET_Y"

subsection \<open>Drawing the path\<close>

text \<open>The \<^verbatim>\<open>while (force_stop < 1000)\<close> loop of \<^verbatim>\<open>draw_path\<close>. It returns the grid and
  the final value of \<^verbatim>\<open>force_stop\<close>: the loop left by \<^verbatim>\<open>break\<close> returns a value below
  1000, the loop stopped by its condition returns 1000.\<close>

function draw_path_loop :: "Grid \<Rightarrow> Cell_Typedef \<Rightarrow> int \<Rightarrow> error + (Grid \<times> int)" where
  "draw_path_loop gr tmp_cell force_stop =
     (if force_stop < 1000 then
        (if \<not> in_grid (position tmp_cell) \<or> \<not> in_grid (parent_position tmp_cell)
         then Inl Out_of_bounds
         else if x (parent_position
                     ((gr(position tmp_cell := (gr (position tmp_cell))\<lparr>state := CELL_PATH\<rparr>))
                        (parent_position tmp_cell))) = - 1 \<and>
                 y (parent_position
                     ((gr(position tmp_cell := (gr (position tmp_cell))\<lparr>state := CELL_PATH\<rparr>))
                        (parent_position tmp_cell))) = - 1
         then Inr (gr(position tmp_cell := (gr (position tmp_cell))\<lparr>state := CELL_PATH\<rparr>), force_stop)
         else draw_path_loop
                (gr(position tmp_cell := (gr (position tmp_cell))\<lparr>state := CELL_PATH\<rparr>))
                ((gr(position tmp_cell := (gr (position tmp_cell))\<lparr>state := CELL_PATH\<rparr>))
                   (parent_position tmp_cell))
                (force_stop + 1))
      else Inr (gr, force_stop))"
  by pat_completeness auto
termination
  by (relation "measure (\<lambda>(gr, tmp_cell, force_stop). nat (1000 - force_stop))") auto

declare draw_path_loop.simps [simp del]

definition draw_path :: "Grid \<Rightarrow> Cell_Typedef \<Rightarrow> error + Grid" where
  "draw_path gr current_cell =
     (if \<not> in_grid (position current_cell) then Inl Out_of_bounds
      else map_sum id fst (draw_path_loop gr (gr (position current_cell)) 0))"

subsection \<open>One call of a_star\<close>

definition neighbours :: "int \<Rightarrow> int \<Rightarrow> CellPosition_Typedef list" where
  "neighbours cx cy =
     [\<lparr>x = cx - 1, y = cy - 1\<rparr>, \<lparr>x = cx + 1, y = cy + 1\<rparr>,
      \<lparr>x = cx + 1, y = cy - 1\<rparr>, \<lparr>x = cx - 1, y = cy + 1\<rparr>,
      \<lparr>x = cx + 1, y = cy\<rparr>, \<lparr>x = cx - 1, y = cy\<rparr>,
      \<lparr>x = cx, y = cy - 1\<rparr>, \<lparr>x = cx, y = cy + 1\<rparr>]"

text \<open>Lines 200-207: the scan of \<^verbatim>\<open>closed_nodes[0..closed_nodes_count - 1]\<close>.\<close>

definition is_closed :: "Cell_Typedef list \<Rightarrow> CellPosition_Typedef \<Rightarrow> bool" where
  "is_closed closed neighbour =
     list_ex (\<lambda>c. x (position c) = x neighbour \<and> y (position c) = y neighbour) closed"

text \<open>Lines 213-220: the scan \<^verbatim>\<open>for (o = 0; o < open_nodes_queue.idx; o++)\<close> reads the
  entries at the indices \<open>0, ..., idx - 1\<close>.\<close>

definition in_queue :: "Queue_Typedef \<Rightarrow> CellPosition_Typedef \<Rightarrow> bool" where
  "in_queue queue neighbour =
     list_ex (\<lambda>c. x (position c) = x neighbour \<and> y (position c) = y neighbour)
       (take (nat (idx queue)) (cells queue))"

definition neighbour_g :: "Cell_Typedef \<Rightarrow> CellPosition_Typedef \<Rightarrow> int" where
  "neighbour_g current_cell neighbour =
     g_cost current_cell +
     compute_distance (x (position current_cell)) (y (position current_cell)) (x neighbour) (y neighbour)"

text \<open>Lines 232-244: the grid cell of the neighbour after the assignments.\<close>

definition updated_cell :: "Cell_Typedef \<Rightarrow> CellPosition_Typedef \<Rightarrow> Cell_Typedef \<Rightarrow> Cell_Typedef" where
  "updated_cell current_cell neighbour c =
     c\<lparr>position := \<lparr>x = x neighbour, y = y neighbour\<rparr>,
       g_cost := neighbour_g current_cell neighbour,
       h_cost := h (x neighbour) (y neighbour),
       cost := neighbour_g current_cell neighbour + h (x neighbour) (y neighbour),
       parent_position := \<lparr>x = x (position current_cell), y = y (position current_cell)\<rparr>,
       state := (if state c = CELL_EMPTY then CELL_NEIGHBOUR else state c)\<rparr>"

text \<open>The body of the \<^verbatim>\<open>for\<close> loop over the neighbours (lines 181-246) either goes on
  with the next neighbour or returns from \<^verbatim>\<open>a_star\<close>.\<close>

datatype loop_exit = Continue search_state | Return search_state

definition assess_neighbour ::
  "Cell_Typedef \<Rightarrow> CellPosition_Typedef \<Rightarrow> search_state \<Rightarrow> error + loop_exit" where
  "assess_neighbour current_cell neighbour s =
     (if x neighbour < 0 \<or> x neighbour > CELL_COUNT - 1 \<or>
         y neighbour < 0 \<or> y neighbour > CELL_COUNT - 1
      then Inr (Continue s)
      else if state (grid s neighbour) = CELL_TARGET then
        (case draw_path (grid s) current_cell of
           Inl e \<Rightarrow> Inl e
         | Inr gr \<Rightarrow> Inr (Return (s\<lparr>found_target := True, grid := gr\<rparr>)))
      else if state (grid s neighbour) = CELL_BARRIER then Inr (Continue s)
      else if is_closed (closed_nodes s) neighbour then Inr (Continue s)
      else if \<not> in_queue (open_nodes_queue s) neighbour \<or>
              neighbour_g current_cell neighbour \<le> g (x neighbour) (y neighbour)
      then
        (case enqueue (open_nodes_queue s) (updated_cell current_cell neighbour (grid s neighbour)) of
           Inl e \<Rightarrow> Inl e
         | Inr queue \<Rightarrow>
             Inr (Continue (s\<lparr>grid := (grid s)(neighbour :=
                                  updated_cell current_cell neighbour (grid s neighbour)),
                              open_nodes_queue := queue\<rparr>)))
      else Inr (Continue s))"

text \<open>The \<^verbatim>\<open>for\<close> loop, followed by the \<^verbatim>\<open>qsort\<close> of \<^verbatim>\<open>cells[0..idx]\<close> (lines 250-251)
  when the loop runs to its end.\<close>

fun a_star_loop ::
  "Cell_Typedef \<Rightarrow> CellPosition_Typedef list \<Rightarrow> search_state \<Rightarrow> error + search_state" where
  "a_star_loop current_cell [] s =
     Inr (s\<lparr>open_nodes_queue :=
              (open_nodes_queue s)\<lparr>cells := qsort compare_cell_cost (cells (open_nodes_queue s))\<rparr>\<rparr>)"
| "a_star_loop current_cell (neighbour # rest) s =
     (case assess_neighbour current_cell neighbour s of
        Inl e \<Rightarrow> Inl e
      | Inr (Return s') \<Rightarrow> Inr s'
      | Inr (Continue s') \<Rightarrow> a_star_loop current_cell rest s')"

text \<open>Lines 159-168: the popped cell is appended to \<^verbatim>\<open>closed_nodes\<close> (the write at
  index \<^verbatim>\<open>closed_nodes_count\<close>) and its grid cell is marked visited.\<close>

definition close_current :: "Cell_Typedef \<Rightarrow> Queue_Typedef \<Rightarrow> search_state \<Rightarrow> error + search_state" where
  "close_current current_cell queue s =
     (if \<not> (0 \<le> closed_nodes_count s \<and> closed_nodes_count s \<le> QUEUE_SIZE - 1) then Inl Out_of_bounds
      else if \<not> in_grid (position current_cell) then Inl Out_of_bounds
      else Inr (s\<lparr>open_nodes_queue := queue,
                  closed_nodes := closed_nodes s @ [current_cell],
                  grid := (if state (grid s (position current_cell)) \<noteq> CELL_START
                           then (grid s)(position current_cell :=
                                  (grid s (position current_cell))\<lparr>state := CELL_VISITED\<rparr>)
                           else grid s)\<rparr>))"

definition a_star :: "search_state \<Rightarrow> error + search_state" where
  "a_star s =
     (if found_target s then Inr s
      else case pop (open_nodes_queue s) of
        None \<Rightarrow> Inr s
      | Some (current_cell, queue) \<Rightarrow>
          (case close_current current_cell queue s of
             Inl e \<Rightarrow> Inl e
           | Inr s' \<Rightarrow>
               a_star_loop current_cell
                 (neighbours (x (position current_cell)) (y (position current_cell))) s'))"

subsection \<open>Barriers and the set-up of main\<close>

text \<open>\<^verbatim>\<open>create_barriers\<close> draws two numbers from \<^verbatim>\<open>rand()\<close> in every round. The numbers
  drawn are a parameter: the list \<open>rnds\<close> of the values \<^verbatim>\<open>rand()\<close> returns (never
  negative), in order. The loop has no bound of its own; the result is \<open>None\<close> when
  the list is used up before \<^verbatim>\<open>n_created\<close> has reached \<^verbatim>\<open>n_barriers\<close>.\<close>

fun create_barriers_loop :: "int \<Rightarrow> int \<Rightarrow> nat list \<Rightarrow> Grid \<Rightarrow> Grid option" where
  "create_barriers_loop n_created n_barriers (rx # ry # rnds) gr =
     (if n_created < n_barriers then
        (if state (gr \<lparr>x = int rx mod CELL_COUNT, y = int ry mod CELL_COUNT\<rparr>) \<noteq> CELL_START \<and>
            state (gr \<lparr>x = int rx mod CELL_COUNT, y = int ry mod CELL_COUNT\<rparr>) \<noteq> CELL_TARGET
         then create_barriers_loop (n_created + 1) n_barriers rnds
                (gr(\<lparr>x = int rx mod CELL_COUNT, y = int ry mod CELL_COUNT\<rparr> :=
                     (gr \<lparr>x = int rx mod CELL_COUNT, y = int ry mod CELL_COUNT\<rparr>)\<lparr>state := CELL_BARRIER\<rparr>))
         else create_barriers_loop n_created n_barriers rnds gr)
      else Some gr)"
| "create_barriers_loop n_created n_barriers rnds gr =
     (if n_created < n_barriers then None else Some gr)"

definition create_barriers :: "int \<Rightarrow> nat list \<Rightarrow> Grid \<Rightarrow> Grid option" where
  "create_barriers n_barriers rnds gr = create_barriers_loop 0 n_barriers rnds gr"

text \<open>The zero-initialised global grid, and the grid after lines 260-268 (the start
  cell) and after lines 272-274 (the target cell).\<close>

definition zero_cell :: Cell_Typedef where
  "zero_cell = \<lparr>position = \<lparr>x = 0, y = 0\<rparr>, h_cost = 0, g_cost = 0, cost = 0,
                state = CELL_EMPTY, parent_position = \<lparr>x = 0, y = 0\<rparr>\<rparr>"

definition start_cell :: Cell_Typedef where
  "start_cell = zero_cell\<lparr>state := CELL_START,
                          position := \<lparr>x = START_X, y = START_Y\<rparr>,
                          g_cost := g START_X START_Y,
                          h_cost := h START_X START_Y,
                          cost := g START_X START_Y + h START_X START_Y,
                          parent_position := \<lparr>x = - 1, y = - 1\<rparr>\<rparr>"

definition grid_with_start :: Grid where
  "grid_with_start = (\<lambda>p. zero_cell)(\<lparr>x = START_X, y = START_Y\<rparr> := start_cell)"

definition grid_with_target :: Grid where
  "grid_with_target =
     grid_with_start(\<lparr>x = TARGET_X, y = TARGET_Y\<rparr> :=
       (grid_with_start \<lparr>x = TARGET_X, y = TARGET_Y\<rparr>)
         \<lparr>state := CELL_TARGET, position := \<lparr>x = TARGET_X, y = TARGET_Y\<rparr>\<rparr>)"

text \<open>The states of the program between two calls of \<^verbatim>\<open>a_star\<close>: \<^verbatim>\<open>main\<close> enqueues the
  start cell on the empty queue (\<^verbatim>\<open>idx = -1\<close>), sets the target cell, calls
  \<^verbatim>\<open>create_barriers(1000)\<close> and then calls \<^verbatim>\<open>a_star\<close> once per round of its loop.\<close>

inductive reachable :: "search_state \<Rightarrow> bool" where
  reachable_main:
    "enqueue \<lparr>cells = []\<rparr> (grid_with_start \<lparr>x = START_X, y = START_Y\<rparr>) = Inr queue \<Longrightarrow>
     create_barriers 1000 rnds grid_with_target = Some gr \<Longrightarrow>
     reachable \<lparr>grid = gr, open_nodes_queue = queue, closed_nodes = [], found_target = False\<rparr>"
| reachable_a_star:
    "reachable s \<Longrightarrow> a_star s = Inr s' \<Longrightarrow> reachable s'"

subsection \<open>Runs of the search and two small grids\<close>

text \<open>\<open>a_star_n k\<close> is \<open>k\<close> rounds of the loop of \<^verbatim>\<open>main\<close>, each one call of \<^verbatim>\<open>a_star\<close>.\<close>

fun a_star_n :: "nat \<Rightarrow> search_state \<Rightarrow> error + search_state" where
  "a_star_n 0 s = Inr s"
| "a_star_n (Suc k) s = (case a_star s of Inl e \<Rightarrow> Inl e | Inr s' \<Rightarrow> a_star_n k s')"

text \<open>The assignment \<^verbatim>\<open>grid[rand_x][rand_y].state = CELL_BARRIER\<close> of \<^verbatim>\<open>create_barriers\<close>.\<close>

definition set_barrier :: "CellPosition_Typedef \<Rightarrow> Grid \<Rightarrow> Grid" where
  "set_barrier p gr = gr(p := (gr p)\<lparr>state := CELL_BARRIER\<rparr>)"

text \<open>The state in which \<^verbatim>\<open>main\<close> enters its loop, for the grid \<open>gr\<close> that
  \<^verbatim>\<open>create_barriers\<close> has left.\<close>

definition first_state :: "Grid \<Rightarrow> search_state" where
  "first_state gr =
     \<lparr>grid = gr, open_nodes_queue = \<lparr>cells = [start_cell]\<rparr>, closed_nodes = [], found_target = False\<rparr>"


definition pocket_grid :: Grid where
  "pocket_grid = fold set_barrier
     [\<lparr>x = 2, y = 7\<rparr>, \<lparr>x = 2, y = 8\<rparr>, \<lparr>x = 2, y = 9\<rparr>, \<lparr>x = 2, y = 10\<rparr>, \<lparr>x = 3, y = 7\<rparr>,
      \<lparr>x = 3, y = 10\<rparr>, \<lparr>x = 4, y = 7\<rparr>, \<lparr>x = 4, y = 8\<rparr>, \<lparr>x = 4, y = 10\<rparr>, \<lparr>x = 5, y = 8\<rparr>,
      \<lparr>x = 5, y = 9\<rparr>, \<lparr>x = 5, y = 10\<rparr>] grid_with_target"

text \<open>The alley: the free cells are the start (3,8) and (3,9), (2,9), (2,10), (1,10);
  the cells around the first four of them are barriers. The 1000 rounds draw (1,8) 988
  times and each of the other twelve cells once.\<close>

definition alley_draws :: "nat list" where
  "alley_draws =
     concat (replicate 988 [1, 8]) @
     [1, 9, 1, 11, 2, 7, 2, 8, 2, 11, 3, 7, 3, 10, 3, 11, 4, 7, 4, 8, 4, 9, 4, 10]"

definition alley_grid :: Grid where
  "alley_grid = fold set_barrier
     [\<lparr>x = 1, y = 8\<rparr>, \<lparr>x = 1, y = 9\<rparr>, \<lparr>x = 1, y = 11\<rparr>, \<lparr>x = 2, y = 7\<rparr>, \<lparr>x = 2, y = 8\<rparr>,
      \<lparr>x = 2, y = 11\<rparr>, \<lparr>x = 3, y = 7\<rparr>, \<lparr>x = 3, y = 10\<rparr>, \<lparr>x = 3, y = 11\<rparr>, \<lparr>x = 4, y = 7\<rparr>,
      \<lparr>x = 4, y = 8\<rparr>, \<lparr>x = 4, y = 9\<rparr>, \<lparr>x = 4, y = 10\<rparr>] grid_with_target"

subsection \<open>Invariants used in the proofs\<close>

text \<open>The start and the target position; what the search never changes about the two
  cells (\<open>ends_fixed\<close>); a set \<open>W\<close> of cells that were admitted to the queue, each with
  its own position stored and a parent that is the start or again in \<open>W\<close> (\<open>linked\<close>);
  the invariant between two calls of \<^verbatim>\<open>a_star\<close> and the invariant of its loop over the
  neighbours; and grids whose position and parent fields stay inside the grid or are
  the pair (-1,-1) that marks the start (\<open>links_inside\<close>).\<close>

definition start_pos :: CellPosition_Typedef where
  "start_pos = \<lparr>x = START_X, y = START_Y\<rparr>"

definition target_pos :: CellPosition_Typedef where
  "target_pos = \<lparr>x = TARGET_X, y = TARGET_Y\<rparr>"

definition ends_fixed :: "Grid \<Rightarrow> bool" where
  "ends_fixed gr =
     (state (gr start_pos) = CELL_START \<and> parent_position (gr start_pos) = \<lparr>x = - 1, y = - 1\<rparr> \<and>
      state (gr target_pos) = CELL_TARGET \<and>
      (\<forall>p. in_grid p \<longrightarrow> state (gr p) = CELL_TARGET \<longrightarrow> p = target_pos))"

definition linked :: "Grid \<Rightarrow> CellPosition_Typedef set \<Rightarrow> bool" where
  "linked gr W =
     (\<forall>p \<in> W. in_grid p \<and> p \<noteq> start_pos \<and> p \<noteq> target_pos \<and> position (gr p) = p \<and>
              (parent_position (gr p) = start_pos \<or> parent_position (gr p) \<in> W))"

definition search_inv :: "search_state \<Rightarrow> bool" where
  "search_inv s =
     (ends_fixed (grid s) \<and>
      (\<exists>W. linked (grid s) W \<and>
           position ` (set (cells (open_nodes_queue s)) \<union> set (closed_nodes s)) \<subseteq> insert start_pos W) \<and>
      (start_pos \<in> position ` set (closed_nodes s) \<or>
       closed_nodes s = [] \<and> position ` set (cells (open_nodes_queue s)) \<subseteq> {start_pos}))"

definition loop_inv :: "Cell_Typedef \<Rightarrow> search_state \<Rightarrow> bool" where
  "loop_inv current_cell s =
     (ends_fixed (grid s) \<and>
      (\<exists>W. linked (grid s) W \<and> position current_cell \<in> insert start_pos W \<and>
           position ` (set (cells (open_nodes_queue s)) \<union> set (closed_nodes s)) \<subseteq> insert start_pos W) \<and>
      start_pos \<in> position ` set (closed_nodes s))"

definition links_inside :: "Grid \<Rightarrow> bool" where
  "links_inside gr =
     (\<forall>p. in_grid p \<longrightarrow>
        in_grid (position (gr p)) \<and>
        (in_grid (parent_position (gr p)) \<or> parent_position (gr p) = \<lparr>x = - 1, y = - 1\<rparr>))"

text \<open>A grid with one link: the cell (4,9) as \<^verbatim>\<open>a_star\<close> sets it when it expands the
  start cell, so that its parent is the start.\<close>

definition one_link_grid :: Grid where
  "one_link_grid =
     grid_with_start(\<lparr>x = 4, y = 9\<rparr> := updated_cell start_cell \<lparr>x = 4, y = 9\<rparr> zero_cell)"

subsection \<open>A compact form of the search state\<close>

text \<open>Long runs of \<^verbatim>\<open>a_star\<close> are followed on a compact form of the state. It keeps one
  mark per cell: barrier, target, closed, or the number of queue entries that have the
  position of the cell. The marks are rows of lists that grow on demand; a cell that was
  never written has the mark \<open>Open_count 0\<close>. A queue entry is reduced to its position,
  its \<open>g\<close> cost and its cost.\<close>

datatype cell_mark = Wall | Goal | Shut | Open_count int

type_synonym entry = "int \<times> int \<times> int \<times> int"

definition entry_of :: "Cell_Typedef \<Rightarrow> entry" where
  "entry_of c = (x (position c), y (position c), g_cost c, cost c)"

definition ecost :: "entry \<Rightarrow> int" where
  "ecost e = snd (snd (snd e))"

fun row_get :: "'a \<Rightarrow> 'a list \<Rightarrow> int \<Rightarrow> 'a" where
  "row_get d [] i = d"
| "row_get d (a # as) i = (if i \<le> 0 then a else row_get d as (i - 1))"

fun row_put :: "'a \<Rightarrow> 'a list \<Rightarrow> int \<Rightarrow> 'a \<Rightarrow> 'a list" where
  "row_put d [] i v = (if i \<le> 0 then [v] else d # row_put d [] (i - 1) v)"
| "row_put d (a # as) i v = (if i \<le> 0 then v # as else a # row_put d as (i - 1) v)"

definition mark_at :: "cell_mark list list \<Rightarrow> int \<Rightarrow> int \<Rightarrow> cell_mark" where
  "mark_at m i j = row_get (Open_count 0) (row_get [] m i) j"

definition mark_put :: "cell_mark list list \<Rightarrow> int \<Rightarrow> int \<Rightarrow> cell_mark \<Rightarrow> cell_mark list list" where
  "mark_put m i j v = row_put [] m i (row_put (Open_count 0) (row_get [] m i) j v)"

text \<open>The queue is kept in the order of the pops (least cost first), as runs of equal
  entries. \<open>ins\<close> puts an entry in front of the first entry that does not cost less, which
  is where the sort at the end of \<^verbatim>\<open>a_star\<close> leaves an entry pushed last; \<open>run_ins\<close> is
  the same step on runs.\<close>

fun expand_runs :: "(entry \<times> int) list \<Rightarrow> entry list" where
  "expand_runs [] = []"
| "expand_runs ((e, n) # rs) = replicate (nat n) e @ expand_runs rs"

fun ins :: "entry \<Rightarrow> entry list \<Rightarrow> entry list" where
  "ins b [] = [b]"
| "ins b (a # as) = (if ecost a < ecost b then a # ins b as else b # a # as)"

fun run_ins :: "entry \<Rightarrow> (entry \<times> int) list \<Rightarrow> (entry \<times> int) list" where
  "run_ins b [] = [(b, 1)]"
| "run_ins b ((e, n) # rs) =
     (if ecost e < ecost b then (e, n) # run_ins b rs
      else if e = b then (e, n + 1) # rs
      else (b, 1) # (e, n) # rs)"

fun top_pos :: "(entry \<times> int) list \<Rightarrow> int \<times> int" where
  "top_pos [] = (- 1, - 1)"
| "top_pos (((ex, ey, eg, ec), n) # rs) = (ex, ey)"

record compact_state =
  marks :: "cell_mark list list"
  runs :: "(entry \<times> int) list"
  qlen :: int
  nclosed :: int

text \<open>What the loop body of \<^verbatim>\<open>a_star\<close> does with a neighbour inside the grid, read from
  its mark: \<open>None\<close> when it is the target, \<open>Some None\<close> when it is passed over, and
  \<open>Some (Some k)\<close> when it is pushed, \<open>k\<close> being the number of entries the queue holds
  for it. The scan of the queue leaves out the top entry, whose position is \<open>tp\<close>.\<close>

definition decide :: "int \<Rightarrow> int \<Rightarrow> int \<Rightarrow> int \<Rightarrow> int \<Rightarrow> int \<times> int \<Rightarrow> cell_mark \<Rightarrow> int option option" where
  "decide cx cy cg nx ny tp mk =
     (case mk of
        Goal \<Rightarrow> None
      | Wall \<Rightarrow> Some None
      | Shut \<Rightarrow> Some None
      | Open_count k \<Rightarrow>
          (if (if tp = (nx, ny) then k \<le> 1 else k = 0) \<or> cg + compute_distance cx cy nx ny \<le> g nx ny
           then Some (Some k) else Some None))"

fun compact_loop :: "int \<Rightarrow> int \<Rightarrow> int \<Rightarrow> (int \<times> int) list \<Rightarrow>
   cell_mark list list \<Rightarrow> entry list \<Rightarrow> int \<times> int \<Rightarrow> int \<Rightarrow>
   (cell_mark list list \<times> entry list \<times> int) option" where
  "compact_loop cx cy cg [] m pushes tp ql = Some (m, pushes, ql)"
| "compact_loop cx cy cg ((nx, ny) # ns) m pushes tp ql =
     (if nx < 0 \<or> nx > CELL_COUNT - 1 \<or> ny < 0 \<or> ny > CELL_COUNT - 1
      then compact_loop cx cy cg ns m pushes tp ql
      else case decide cx cy cg nx ny tp (mark_at m nx ny) of
        None \<Rightarrow> None
      | Some None \<Rightarrow> compact_loop cx cy cg ns m pushes tp ql
      | Some (Some k) \<Rightarrow>
          (if ql > QUEUE_SIZE - 1 then None
           else compact_loop cx cy cg ns (mark_put m nx ny (Open_count (k + 1)))
                  ((nx, ny, cg + compute_distance cx cy nx ny,
                    cg + compute_distance cx cy nx ny + h nx ny) # pushes)
                  (nx, ny) (ql + 1)))"

definition compact_neighbours :: "int \<Rightarrow> int \<Rightarrow> (int \<times> int) list" where
  "compact_neighbours cx cy =
     [(cx - 1, cy - 1), (cx + 1, cy + 1), (cx + 1, cy - 1), (cx - 1, cy + 1),
      (cx + 1, cy), (cx - 1, cy), (cx, cy - 1), (cx, cy + 1)]"

definition compact_expand ::
  "compact_state \<Rightarrow> (entry \<times> int) list \<Rightarrow> int \<Rightarrow> int \<Rightarrow> int \<Rightarrow> compact_state option" where
  "compact_expand c rest cx cy cg =
     (if nclosed c > QUEUE_SIZE - 1 then None
      else case compact_loop cx cy cg (compact_neighbours cx cy) (mark_put (marks c) cx cy Shut) []
                  (top_pos rest) (qlen c - 1) of
        None \<Rightarrow> None
      | Some (m, pushes, ql) \<Rightarrow>
          Some \<lparr>marks = m, runs = fold run_ins (rev pushes) rest, qlen = ql, nclosed = nclosed c + 1\<rparr>)"

definition compact_step :: "compact_state \<Rightarrow> compact_state option" where
  "compact_step c =
     (case runs c of
        [] \<Rightarrow> None
      | ((cx, cy, cg, cc), n) # rs \<Rightarrow>
          compact_expand c (if n \<le> 1 then rs else ((cx, cy, cg, cc), n - 1) # rs) cx cy cg)"

fun compact_steps :: "nat \<Rightarrow> compact_state \<Rightarrow> compact_state option" where
  "compact_steps 0 c = Some c"
| "compact_steps (Suc k) c = (case compact_step c of None \<Rightarrow> None | Some c' \<Rightarrow> compact_steps k c')"

text \<open>The relation between a compact state and a state of the program.\<close>

fun mark_ok :: "search_state \<Rightarrow> CellPosition_Typedef \<Rightarrow> cell_mark \<Rightarrow> bool" where
  "mark_ok s p Wall = (state (grid s p) = CELL_BARRIER)"
| "mark_ok s p Goal = (state (grid s p) = CELL_TARGET)"
| "mark_ok s p Shut =
     (state (grid s p) \<noteq> CELL_BARRIER \<and> state (grid s p) \<noteq> CELL_TARGET \<and>
      is_closed (closed_nodes s) p)"
| "mark_ok s p (Open_count k) =
     (state (grid s p) \<noteq> CELL_BARRIER \<and> state (grid s p) \<noteq> CELL_TARGET \<and>
      \<not> is_closed (closed_nodes s) p \<and>
      k = int (count_list (map position (cells (open_nodes_queue s))) p))"

definition marks_ok :: "cell_mark list list \<Rightarrow> search_state \<Rightarrow> bool" where
  "marks_ok m s =
     ((\<forall>p. in_grid p \<longrightarrow> mark_ok s p (mark_at m (x p) (y p))) \<and>
      (\<forall>e \<in> set (cells (open_nodes_queue s)).
         in_grid (position e) \<and> state (grid s (position e)) \<noteq> CELL_BARRIER \<and>
         state (grid s (position e)) \<noteq> CELL_TARGET))"

definition top_of :: "search_state \<Rightarrow> int \<times> int" where
  "top_of s =
     (if cells (open_nodes_queue s) = [] then (- 1, - 1)
      else (x (position (last (cells (open_nodes_queue s)))),
            y (position (last (cells (open_nodes_queue s))))))"

definition compact_rel :: "compact_state \<Rightarrow> search_state \<Rightarrow> bool" where
  "compact_rel c s =
     (\<not> found_target s \<and>
      map entry_of (cells (open_nodes_queue s)) = rev (expand_runs (runs c)) \<and>
      (\<forall>r \<in> set (runs c). 0 < snd r) \<and>
      sorted (map ecost (expand_runs (runs c))) \<and>
      qlen c = int (length (cells (open_nodes_queue s))) \<and>
      nclosed c = int (length (closed_nodes s)) \<and>
      marks_ok (marks c) s)"

definition loop_rel ::
  "Cell_Typedef list \<Rightarrow> cell_mark list list \<Rightarrow> entry list \<Rightarrow> int \<times> int \<Rightarrow> int \<Rightarrow> search_state \<Rightarrow> bool" where
  "loop_rel base m pushes tp ql t =
     (\<not> found_target t \<and> marks_ok m t \<and> tp = top_of t \<and>
      ql = int (length (cells (open_nodes_queue t))) \<and>
      (\<exists>ps. cells (open_nodes_queue t) = base @ ps \<and> map entry_of ps = rev pushes))"

definition sorted_queue :: "search_state \<Rightarrow> search_state" where
  "sorted_queue t =
     t\<lparr>open_nodes_queue :=
         (open_nodes_queue t)\<lparr>cells := qsort compare_cell_cost (cells (open_nodes_queue t))\<rparr>\<rparr>"

subsection \<open>The strip\<close>

text \<open>The strip: barriers on (0,7), ..., (4,7) and on (4,8), ..., (4,39), which close
  off the four columns \<open>x = 0, ..., 3\<close> below the start (3,8). The 1000 rounds of
  \<^verbatim>\<open>create_barriers\<close> draw (0,7) 964 times and each of the other 36 cells once.\<close>

definition strip_barriers :: "(int \<times> int) list" where
  "strip_barriers =
     [(0, 7), (1, 7), (2, 7), (3, 7), (4, 7), (4, 8), (4, 9), (4, 10), (4, 11), (4, 12), (4, 13), (4, 14), (4, 15), (4, 16), (4, 17), (4, 18), (4, 19), (4, 20), (4, 21), (4, 22), (4, 23), (4, 24), (4, 25), (4, 26), (4, 27), (4, 28), (4, 29), (4, 30), (4, 31), (4, 32), (4, 33), (4, 34), (4, 35), (4, 36), (4, 37), (4, 38), (4, 39)]"

definition strip_draws :: "nat list" where
  "strip_draws =
     concat (replicate 964 [0, 7]) @
     [1, 7, 2, 7, 3, 7, 4, 7, 4, 8, 4, 9, 4, 10, 4, 11, 4, 12, 4, 13, 4, 14, 4, 15, 4, 16, 4, 17, 4, 18, 4, 19, 4, 20, 4, 21, 4, 22, 4, 23, 4, 24, 4, 25, 4, 26, 4, 27, 4, 28, 4, 29, 4, 30, 4, 31, 4, 32, 4, 33, 4, 34, 4, 35, 4, 36, 4, 37, 4, 38, 4, 39]"

definition strip_grid :: Grid where
  "strip_grid = fold set_barrier (map (\<lambda>(a, b). \<lparr>x = a, y = b\<rparr>) strip_barriers) grid_with_target"

definition strip_marks :: "cell_mark list list" where
  "strip_marks =
     fold (\<lambda>(i, j) m. mark_put m i j Wall) strip_barriers
       (mark_put (mark_put [] START_X START_Y (Open_count 1)) TARGET_X TARGET_Y Goal)"

definition strip_compact :: compact_state where
  "strip_compact =
     \<lparr>marks = strip_marks, runs = [((START_X, START_Y, g START_X START_Y, g START_X START_Y + h START_X START_Y), 1)],
      qlen = 1, nclosed = 0\<rparr>"

section \<open>Properties\<close>

lemmas consts_defs = CELL_COUNT_def QUEUE_SIZE_def START_X_def START_Y_def TARGET_X_def TARGET_Y_def

lemmas grid_defs = set_barrier_def grid_with_target_def grid_with_start_def zero_cell_def start_cell_def

lemmas eval_defs = a_star_def pop_def is_empty_queue_def idx_def close_current_def
  closed_nodes_count_def in_grid_def neighbours_def assess_neighbour_def is_closed_def
  in_queue_def neighbour_g_def updated_cell_def enqueue_def is_full_def qsort_def
  compare_cell_cost_def compute_distance_def g_def h_def consts_defs

subsection \<open>The sort\<close>

lemma set_qsort_insert: "set (qsort_insert cmp a bs) = insert a (set bs)"
  by (induction bs) auto

lemma mset_qsort_insert: "mset (qsort_insert cmp a bs) = add_mset a (mset bs)"
  by (induction bs) auto

lemma mset_qsort: "mset (qsort cmp xs) = mset xs"
  by (induction xs) (simp_all add: qsort_def mset_qsort_insert)

lemma set_qsort: "set (qsort cmp xs) = set xs"
  by (metis mset_qsort set_mset_mset)

lemma length_qsort: "length (qsort cmp xs) = length xs"
  by (metis mset_qsort size_mset)

lemma sorted_qsort_insert:
  "sorted_wrt (\<lambda>a b. cost b \<le> cost a) bs \<Longrightarrow>
   sorted_wrt (\<lambda>a b. cost b \<le> cost a) (qsort_insert compare_cell_cost a bs)"
  by (induction bs) (auto simp: set_qsort_insert compare_cell_cost_def split: if_splits)

lemma sorted_qsort: "sorted_wrt (\<lambda>a b. cost b \<le> cost a) (qsort compare_cell_cost xs)"
  by (induction xs) (simp_all add: qsort_def sorted_qsort_insert)

lemma sorted_wrt_last_least:
  "sorted_wrt (\<lambda>a b. cost b \<le> cost a) xs \<Longrightarrow> e \<in> set xs \<Longrightarrow> cost (last xs) \<le> cost e"
  by (induction xs) auto

subsection \<open>The two scans\<close>

lemma position_eq_iff: "(x p = x q \<and> y p = y q) = (p = q)" for p q :: CellPosition_Typedef
  by auto

lemma same_position_scan:
  "list_ex (\<lambda>c. x (position c) = x n \<and> y (position c) = y n) cs = (n \<in> set (map position cs))"
  unfolding position_eq_iff list_ex_iff by auto

lemma is_closed_iff: "is_closed closed n = (n \<in> set (map position closed))"
  unfolding is_closed_def by (rule same_position_scan)

lemma in_queue_iff: "in_queue queue n = (n \<in> set (map position (butlast (cells queue))))"
proof -
  have "nat (idx queue) = length (cells queue) - 1"
    unfolding idx_def by linarith
  then have "take (nat (idx queue)) (cells queue) = butlast (cells queue)"
    by (simp add: butlast_conv_take)
  then show ?thesis
    unfolding in_queue_def by (simp only: same_position_scan)
qed

subsection \<open>The two small grids are reachable\<close>

lemma create_barriers_loop_same_draw:
  "state (gr \<lparr>x = int rx mod CELL_COUNT, y = int ry mod CELL_COUNT\<rparr>) \<noteq> CELL_START \<Longrightarrow>
   state (gr \<lparr>x = int rx mod CELL_COUNT, y = int ry mod CELL_COUNT\<rparr>) \<noteq> CELL_TARGET \<Longrightarrow>
   n_created + int k \<le> n_barriers \<Longrightarrow> 0 < k \<Longrightarrow>
   create_barriers_loop n_created n_barriers (concat (replicate k [rx, ry]) @ rnds) gr =
   create_barriers_loop (n_created + int k) n_barriers rnds
     (set_barrier \<lparr>x = int rx mod CELL_COUNT, y = int ry mod CELL_COUNT\<rparr> gr)"
proof (induction k arbitrary: n_created gr)
  case 0
  then show ?case by simp
next
  case (Suc k)
  let ?p = "\<lparr>x = int rx mod CELL_COUNT, y = int ry mod CELL_COUNT\<rparr>"
  have one:
    "create_barriers_loop n_created n_barriers (concat (replicate (Suc k) [rx, ry]) @ rnds) gr =
     create_barriers_loop (n_created + 1) n_barriers (concat (replicate k [rx, ry]) @ rnds)
       (set_barrier ?p gr)"
    unfolding set_barrier_def using Suc.prems by simp
  show ?case
  proof (cases "k = 0")
    case True
    with one show ?thesis by simp
  next
    case False
    have idem: "set_barrier ?p (set_barrier ?p gr) = set_barrier ?p gr"
      unfolding set_barrier_def by simp
    have st: "state (set_barrier ?p gr ?p) = CELL_BARRIER"
      unfolding set_barrier_def by simp
    have "create_barriers_loop (n_created + 1) n_barriers (concat (replicate k [rx, ry]) @ rnds)
            (set_barrier ?p gr) =
          create_barriers_loop (n_created + 1 + int k) n_barriers rnds
            (set_barrier ?p (set_barrier ?p gr))"
      using Suc.prems False st by (intro Suc.IH) simp_all
    with one show ?thesis by (simp add: idem add.commute add.left_commute)
  qed
qed


lemma alley_grid_created: "create_barriers 1000 alley_draws grid_with_target = Some alley_grid"
proof -
  have "create_barriers_loop 0 1000 alley_draws grid_with_target =
        create_barriers_loop (0 + int 988) 1000
          [1, 9, 1, 11, 2, 7, 2, 8, 2, 11, 3, 7, 3, 10, 3, 11, 4, 7, 4, 8, 4, 9, 4, 10]
          (set_barrier \<lparr>x = int 1 mod CELL_COUNT, y = int 8 mod CELL_COUNT\<rparr> grid_with_target)"
    unfolding alley_draws_def
    by (rule create_barriers_loop_same_draw) (simp_all add: grid_defs consts_defs)
  also have "\<dots> = Some alley_grid"
    by (simp add: alley_grid_def grid_defs consts_defs)
  finally show ?thesis by (simp add: create_barriers_def)
qed

lemma reachable_first_state:
  "create_barriers 1000 rnds grid_with_target = Some gr \<Longrightarrow> reachable (first_state gr)"
  unfolding first_state_def
  by (erule reachable_main [rotated])
     (simp add: enqueue_def is_full_def idx_def consts_defs grid_with_start_def)

lemma reachable_a_star_n: "reachable s \<Longrightarrow> a_star_n k s = Inr s' \<Longrightarrow> reachable s'"
  by (induction k arbitrary: s) (auto split: sum.splits intro: reachable_a_star)


lemma alley_five_steps:
  "\<exists>s. a_star_n 5 (first_state alley_grid) = Inr s \<and>
       map position (closed_nodes s) =
         [\<lparr>x = 3, y = 8\<rparr>, \<lparr>x = 3, y = 9\<rparr>, \<lparr>x = 2, y = 9\<rparr>, \<lparr>x = 2, y = 10\<rparr>, \<lparr>x = 2, y = 10\<rparr>]"
  by (simp add: eval_defs first_state_def alley_grid_def grid_defs numeral_eq_Suc)

subsection \<open>Links and the two fixed cells\<close>

lemma in_grid_start: "in_grid start_pos"
  by (simp add: in_grid_def start_pos_def consts_defs)

lemma in_grid_not_sentinel: "in_grid p \<Longrightarrow> \<not> (x p = - 1 \<and> y p = - 1)"
  by (simp add: in_grid_def)

lemma position_eta: "\<lparr>x = x p, y = y p\<rparr> = p" for p :: CellPosition_Typedef
  by simp

lemma ends_fixed_mark:
  "ends_fixed gr \<Longrightarrow> p \<noteq> start_pos \<Longrightarrow> p \<noteq> target_pos \<Longrightarrow> st \<noteq> CELL_TARGET \<Longrightarrow>
   ends_fixed (gr(p := (gr p)\<lparr>state := st\<rparr>))"
  by (auto simp: ends_fixed_def)

lemma linked_mark: "linked gr W \<Longrightarrow> linked (gr(p := (gr p)\<lparr>state := st\<rparr>)) W"
  by (auto simp: linked_def)

lemma draw_path_loop_inv:
  "ends_fixed gr \<Longrightarrow> linked gr W \<Longrightarrow> q \<in> W \<Longrightarrow> tmp_cell = gr q \<Longrightarrow>
   draw_path_loop gr tmp_cell force_stop = Inr (gr', k) \<Longrightarrow>
   ends_fixed gr' \<and> linked gr' W"
proof (induction gr tmp_cell force_stop arbitrary: q rule: draw_path_loop.induct)
  case (1 gr tmp_cell force_stop)
  define gr1 where "gr1 = gr(position tmp_cell := (gr (position tmp_cell))\<lparr>state := CELL_PATH\<rparr>)"
  note unf = draw_path_loop.simps [of gr tmp_cell force_stop, folded gr1_def]
  from "1.prems" have q: "in_grid q" "q \<noteq> start_pos" "q \<noteq> target_pos" "position (gr q) = q"
    and par: "parent_position (gr q) = start_pos \<or> parent_position (gr q) \<in> W"
    by (auto simp: linked_def)
  have pos: "position tmp_cell = q" using q "1.prems"(4) by simp
  have e1: "ends_fixed gr1" unfolding gr1_def pos using "1.prems"(1) q by (intro ends_fixed_mark) simp_all
  have l1: "linked gr1 W" unfolding gr1_def pos using "1.prems"(2) by (rule linked_mark)
  show ?case
  proof (cases "force_stop < 1000")
    case False
    with "1.prems"(5) have "gr' = gr" by (simp add: unf)
    with "1.prems" show ?thesis by simp
  next
    case True
    note lt = this
    have ing: "in_grid (position tmp_cell)" "in_grid (parent_position tmp_cell)"
      using q par "1.prems"(2,4) pos in_grid_start by (auto simp: linked_def)
    show ?thesis
    proof (cases "x (parent_position (gr1 (parent_position tmp_cell))) = - 1 \<and>
                  y (parent_position (gr1 (parent_position tmp_cell))) = - 1")
      case True
      with lt ing "1.prems"(5) have "gr' = gr1"
        by (simp add: unf)
      with e1 l1 show ?thesis by simp
    next
      case False
      note nb = this
      have pw: "parent_position tmp_cell \<in> W"
      proof (rule ccontr)
        assume "parent_position tmp_cell \<notin> W"
        with par "1.prems"(4) have ps: "parent_position tmp_cell = start_pos" by auto
        have "parent_position (gr1 start_pos) = \<lparr>x = - 1, y = - 1\<rparr>"
          using e1 by (simp add: ends_fixed_def)
        with nb ps show False by simp
      qed
      have rec: "draw_path_loop gr1 (gr1 (parent_position tmp_cell)) (force_stop + 1) = Inr (gr', k)"
        using lt ing nb "1.prems"(5) by (auto simp: unf split: if_splits)
      have c2: "\<not> (\<not> in_grid (position tmp_cell) \<or> \<not> in_grid (parent_position tmp_cell))"
        using ing by simp
      show ?thesis
        using "1.IH" [OF lt c2 nb [unfolded gr1_def] e1 [unfolded gr1_def] l1 [unfolded gr1_def] pw refl rec [unfolded gr1_def]] .
    qed
  qed
qed

lemma draw_path_inv:
  "ends_fixed gr \<Longrightarrow> linked gr W \<Longrightarrow> position current_cell \<in> W \<Longrightarrow>
   draw_path gr current_cell = Inr gr' \<Longrightarrow> ends_fixed gr' \<and> linked gr' W"
proof -
  assume a: "ends_fixed gr" "linked gr W" "position current_cell \<in> W"
    and d: "draw_path gr current_cell = Inr gr'"
  from d obtain k where "draw_path_loop gr (gr (position current_cell)) 0 = Inr (gr', k)"
    by (cases "draw_path_loop gr (gr (position current_cell)) 0")
       (auto simp: draw_path_def split: if_splits)
  from draw_path_loop_inv [OF a refl this] show ?thesis .
qed

subsection \<open>What one neighbour does to the state\<close>

lemma enqueue_cells:
  "enqueue queue c = Inr queue' \<Longrightarrow> cells queue' = cells queue \<or> cells queue' = cells queue @ [c]"
  by (auto simp: enqueue_def split: if_splits)

lemma assess_neighbour_Continue:
  assumes "assess_neighbour current_cell n s = Inr (Continue s')"
  shows "s' = s \<or>
         (in_grid n \<and> state (grid s n) \<noteq> CELL_TARGET \<and> \<not> is_closed (closed_nodes s) n \<and>
          (\<exists>queue'. enqueue (open_nodes_queue s) (updated_cell current_cell n (grid s n)) = Inr queue' \<and>
             s' = s\<lparr>grid := (grid s)(n := updated_cell current_cell n (grid s n)),
                    open_nodes_queue := queue'\<rparr>))"
  using assms
  by (auto simp: assess_neighbour_def in_grid_def split: if_splits sum.splits)

lemma assess_neighbour_Return:
  assumes "assess_neighbour current_cell n s = Inr (Return s')"
  shows "in_grid n \<and> state (grid s n) = CELL_TARGET \<and>
         (\<exists>gr. draw_path (grid s) current_cell = Inr gr \<and> s' = s\<lparr>found_target := True, grid := gr\<rparr>)"
  using assms
  by (auto simp: assess_neighbour_def in_grid_def split: if_splits sum.splits)

lemma updated_cell_fields:
  "position (updated_cell current_cell n c) = n"
  "parent_position (updated_cell current_cell n c) = position current_cell"
  "state (updated_cell current_cell n c) = (if state c = CELL_EMPTY then CELL_NEIGHBOUR else state c)"
  by (simp_all add: updated_cell_def)

lemma assess_neighbour_loop_inv:
  assumes inv: "loop_inv current_cell s"
    and step: "assess_neighbour current_cell n s = Inr (Continue s')"
  shows "loop_inv current_cell s'"
proof -
  from assess_neighbour_Continue [OF step] show ?thesis
  proof
    assume "s' = s" with inv show ?thesis by simp
  next
    assume a: "in_grid n \<and> state (grid s n) \<noteq> CELL_TARGET \<and> \<not> is_closed (closed_nodes s) n \<and>
          (\<exists>queue'. enqueue (open_nodes_queue s) (updated_cell current_cell n (grid s n)) = Inr queue' \<and>
             s' = s\<lparr>grid := (grid s)(n := updated_cell current_cell n (grid s n)),
                    open_nodes_queue := queue'\<rparr>)"
    let ?c = "updated_cell current_cell n (grid s n)"
    from a obtain queue' where en: "enqueue (open_nodes_queue s) ?c = Inr queue'"
      and s': "s' = s\<lparr>grid := (grid s)(n := ?c), open_nodes_queue := queue'\<rparr>"
      by blast
    from inv obtain W where ef: "ends_fixed (grid s)" and lk: "linked (grid s) W"
      and cur: "position current_cell \<in> insert start_pos W"
      and sub: "position ` (set (cells (open_nodes_queue s)) \<union> set (closed_nodes s)) \<subseteq> insert start_pos W"
      and sc: "start_pos \<in> position ` set (closed_nodes s)"
      by (auto simp: loop_inv_def)
    from a have ing: "in_grid n" and nt: "state (grid s n) \<noteq> CELL_TARGET"
      and ncl: "n \<notin> set (map position (closed_nodes s))"
      by (simp_all add: is_closed_iff)
    from nt ef have n_t: "n \<noteq> target_pos" by (auto simp: ends_fixed_def)
    from ncl sc have n_s: "n \<noteq> start_pos" by auto
    have ef': "ends_fixed ((grid s)(n := ?c))"
      using ef n_t n_s nt by (auto simp: ends_fixed_def updated_cell_fields)
    have lk': "linked ((grid s)(n := ?c)) (insert n W)"
      using lk cur ing n_t n_s by (auto simp: linked_def updated_cell_fields)
    have "set (cells queue') \<subseteq> insert ?c (set (cells (open_nodes_queue s)))"
      using enqueue_cells [OF en] by auto
    then have "position ` set (cells queue') \<subseteq> insert (position ?c) (position ` set (cells (open_nodes_queue s)))"
      by blast
    then have sub': "position ` (set (cells queue') \<union> set (closed_nodes s)) \<subseteq> insert start_pos (insert n W)"
      using sub unfolding updated_cell_fields image_Un by blast
    have cur': "position current_cell \<in> insert start_pos (insert n W)" using cur by auto
    show ?thesis
      unfolding loop_inv_def s' using ef' lk' sub' cur' sc by auto
  qed
qed

lemma neighbours_of_start_not_target:
  "n \<in> set (neighbours START_X START_Y) \<Longrightarrow> n \<noteq> target_pos"
  by (auto simp: neighbours_def target_pos_def consts_defs)

lemma assess_neighbour_return_inv:
  assumes inv: "loop_inv current_cell s"
    and n: "n \<in> set (neighbours (x (position current_cell)) (y (position current_cell)))"
    and step: "assess_neighbour current_cell n s = Inr (Return s')"
  shows "search_inv s'"
proof -
  from assess_neighbour_Return [OF step] obtain gr where ing: "in_grid n"
    and tg: "state (grid s n) = CELL_TARGET"
    and dp: "draw_path (grid s) current_cell = Inr gr"
    and s': "s' = s\<lparr>found_target := True, grid := gr\<rparr>"
    by blast
  from inv obtain W where ef: "ends_fixed (grid s)" and lk: "linked (grid s) W"
    and cur: "position current_cell \<in> insert start_pos W"
    and sub: "position ` (set (cells (open_nodes_queue s)) \<union> set (closed_nodes s)) \<subseteq> insert start_pos W"
    and sc: "start_pos \<in> position ` set (closed_nodes s)"
    by (auto simp: loop_inv_def)
  from ef ing tg have nt: "n = target_pos" by (auto simp: ends_fixed_def)
  have "position current_cell \<noteq> start_pos"
  proof
    assume "position current_cell = start_pos"
    with n have "n \<in> set (neighbours START_X START_Y)" by (simp add: start_pos_def)
    from neighbours_of_start_not_target [OF this] nt show False by simp
  qed
  with cur have "position current_cell \<in> W" by simp
  from draw_path_inv [OF ef lk this dp] have "ends_fixed gr" "linked gr W" by simp_all
  then show ?thesis
    unfolding search_inv_def s' using sub sc by auto
qed

lemma a_star_loop_inv:
  "loop_inv current_cell s \<Longrightarrow>
   set ns \<subseteq> set (neighbours (x (position current_cell)) (y (position current_cell))) \<Longrightarrow>
   a_star_loop current_cell ns s = Inr s' \<Longrightarrow> search_inv s'"
proof (induction ns arbitrary: s)
  case Nil
  then show ?case
    by (auto simp: loop_inv_def search_inv_def set_qsort)
next
  case (Cons n ns)
  show ?case
  proof (cases "assess_neighbour current_cell n s")
    case (Inl e)
    with Cons.prems(3) show ?thesis by simp
  next
    case (Inr r)
    show ?thesis
    proof (cases r)
      case (Continue s1)
      with Inr Cons.prems(3) have "a_star_loop current_cell ns s1 = Inr s'" by simp
      moreover have "loop_inv current_cell s1"
        using assess_neighbour_loop_inv [OF Cons.prems(1)] Inr Continue by simp
      ultimately show ?thesis using Cons.IH Cons.prems(2) by simp
    next
      case (Return s1)
      with Inr Cons.prems(3) have "s1 = s'" by simp
      with Inr Return have r: "assess_neighbour current_cell n s = Inr (Return s')" by simp
      have "n \<in> set (neighbours (x (position current_cell)) (y (position current_cell)))"
        using Cons.prems(2) by simp
      from assess_neighbour_return_inv [OF Cons.prems(1) this r] show ?thesis .
    qed
  qed
qed

lemma close_current_loop_inv:
  assumes inv: "search_inv s"
    and p: "pop (open_nodes_queue s) = Some (current_cell, queue)"
    and c: "close_current current_cell queue s = Inr s1"
  shows "loop_inv current_cell s1"
proof -
  from p have ne: "cells (open_nodes_queue s) \<noteq> []"
    and cur: "current_cell = last (cells (open_nodes_queue s))"
    and q: "cells queue = butlast (cells (open_nodes_queue s))"
    by (auto simp: pop_def is_empty_queue_def idx_def split: if_splits)
  from ne cur have mem: "current_cell \<in> set (cells (open_nodes_queue s))" by simp
  have qsub: "set (cells queue) \<subseteq> set (cells (open_nodes_queue s))"
    unfolding q by (auto dest: in_set_butlastD)
  from inv obtain W where ef: "ends_fixed (grid s)" and lk: "linked (grid s) W"
    and sub: "position ` (set (cells (open_nodes_queue s)) \<union> set (closed_nodes s)) \<subseteq> insert start_pos W"
    and sc: "start_pos \<in> position ` set (closed_nodes s) \<or>
       closed_nodes s = [] \<and> position ` set (cells (open_nodes_queue s)) \<subseteq> {start_pos}"
    by (auto simp: search_inv_def)
  from mem sub have curW: "position current_cell \<in> insert start_pos W" by auto
  let ?gr = "if state (grid s (position current_cell)) \<noteq> CELL_START
             then (grid s)(position current_cell := (grid s (position current_cell))\<lparr>state := CELL_VISITED\<rparr>)
             else grid s"
  from c have s1: "s1 = s\<lparr>open_nodes_queue := queue,
                  closed_nodes := closed_nodes s @ [current_cell], grid := ?gr\<rparr>"
    by (auto simp: close_current_def split: if_splits)
  have ef': "ends_fixed ?gr"
  proof (cases "position current_cell = start_pos")
    case True
    with ef show ?thesis by (simp add: ends_fixed_def)
  next
    case False
    with curW lk have "position current_cell \<noteq> target_pos" by (auto simp: linked_def)
    with False ef show ?thesis by (auto intro: ends_fixed_mark)
  qed
  have lk': "linked ?gr W" using lk by (auto intro: linked_mark)
  have sc': "start_pos \<in> position ` set (closed_nodes s @ [current_cell])"
    using sc mem by auto
  have sub': "position ` (set (cells queue) \<union> set (closed_nodes s @ [current_cell])) \<subseteq> insert start_pos W"
    using sub qsub mem by auto
  show ?thesis
    unfolding loop_inv_def s1 using ef' lk' sc' sub' curW by (auto simp del: fun_upd_apply)
qed

lemma a_star_search_inv:
  assumes inv: "search_inv s" and step: "a_star s = Inr s'"
  shows "search_inv s'"
proof (cases "found_target s")
  case True
  with step inv show ?thesis by (simp add: a_star_def)
next
  case False
  note nf = this
  show ?thesis
  proof (cases "pop (open_nodes_queue s)")
    case None
    with nf step inv show ?thesis by (simp add: a_star_def)
  next
    case (Some a)
    obtain current_cell queue where a: "a = (current_cell, queue)" by (cases a)
    show ?thesis
    proof (cases "close_current current_cell queue s")
      case (Inl e)
      with nf Some a step show ?thesis by (simp add: a_star_def)
    next
      case (Inr s1)
      with nf Some a step have
        "a_star_loop current_cell (neighbours (x (position current_cell)) (y (position current_cell))) s1 = Inr s'"
        by (simp add: a_star_def)
      from a_star_loop_inv [OF close_current_loop_inv [OF inv Some [unfolded a] Inr] _ this]
      show ?thesis by simp
    qed
  qed
qed

subsection \<open>The set-up keeps the two cells\<close>

lemma create_barriers_loop_ends_fixed:
  "ends_fixed gr \<Longrightarrow> create_barriers_loop n_created n_barriers rnds gr = Some gr' \<Longrightarrow> ends_fixed gr'"
proof (induction n_created n_barriers rnds gr rule: create_barriers_loop.induct)
  case (1 n_created n_barriers rx ry rnds gr)
  let ?p = "\<lparr>x = int rx mod CELL_COUNT, y = int ry mod CELL_COUNT\<rparr>"
  show ?case
  proof (cases "n_created < n_barriers")
    case False
    with "1.prems" show ?thesis by simp
  next
    case True
    note lt = this
    show ?thesis
    proof (cases "state (gr ?p) \<noteq> CELL_START \<and> state (gr ?p) \<noteq> CELL_TARGET")
      case True
      with "1.prems"(1) have "?p \<noteq> start_pos" "?p \<noteq> target_pos"
        by (auto simp: ends_fixed_def)
      with "1.prems"(1) have "ends_fixed (gr(?p := (gr ?p)\<lparr>state := CELL_BARRIER\<rparr>))"
        by (intro ends_fixed_mark) simp_all
      with "1.IH"(1) [OF lt True] "1.prems"(2) lt True show ?thesis by (simp add: fun_upd_def)
    next
      case False
      with "1.IH"(2) [OF lt False] "1.prems" lt show ?thesis by simp
    qed
  qed
qed (simp_all split: if_splits)

lemma ends_fixed_grid_with_target: "ends_fixed grid_with_target"
  by (auto simp: ends_fixed_def grid_with_target_def grid_with_start_def start_cell_def zero_cell_def
        start_pos_def target_pos_def consts_defs)

lemma reachable_search_inv: "reachable s \<Longrightarrow> search_inv s"
proof (induction rule: reachable.induct)
  case (reachable_main queue rnds gr)
  from reachable_main(1) have q: "queue = \<lparr>cells = [start_cell]\<rparr>"
    by (simp add: enqueue_def is_full_def idx_def consts_defs grid_with_start_def)
  have "ends_fixed gr"
    using create_barriers_loop_ends_fixed [OF ends_fixed_grid_with_target]
      reachable_main(2) by (simp add: create_barriers_def)
  moreover have "linked gr {}" by (simp add: linked_def)
  moreover have "position start_cell = start_pos"
    by (simp add: start_cell_def start_pos_def)
  ultimately show ?case
    unfolding search_inv_def q by auto
next
  case (reachable_a_star s s')
  then show ?case by (auto intro: a_star_search_inv)
qed

subsection \<open>What a call pushes\<close>

lemma assess_neighbour_pushes:
  assumes "assess_neighbour current_cell n s = Inr (Continue s')"
  shows "closed_nodes s' = closed_nodes s \<and>
         (\<exists>pushed. cells (open_nodes_queue s') = cells (open_nodes_queue s) @ pushed \<and>
            (\<forall>e \<in> set pushed. \<not> is_closed (closed_nodes s) (position e)))"
proof -
  from assess_neighbour_Continue [OF assms] show ?thesis
  proof
    assume "s' = s" then show ?thesis by simp
  next
    assume a: "in_grid n \<and> state (grid s n) \<noteq> CELL_TARGET \<and> \<not> is_closed (closed_nodes s) n \<and>
          (\<exists>queue'. enqueue (open_nodes_queue s) (updated_cell current_cell n (grid s n)) = Inr queue' \<and>
             s' = s\<lparr>grid := (grid s)(n := updated_cell current_cell n (grid s n)),
                    open_nodes_queue := queue'\<rparr>)"
    let ?c = "updated_cell current_cell n (grid s n)"
    from a obtain queue' where en: "enqueue (open_nodes_queue s) ?c = Inr queue'"
      and s': "s' = s\<lparr>grid := (grid s)(n := ?c), open_nodes_queue := queue'\<rparr>"
      by blast
    from a have nc: "\<not> is_closed (closed_nodes s) (position ?c)"
      by (simp add: updated_cell_fields)
    from enqueue_cells [OF en] show ?thesis
    proof
      assume "cells queue' = cells (open_nodes_queue s)"
      then show ?thesis unfolding s' by simp
    next
      assume "cells queue' = cells (open_nodes_queue s) @ [?c]"
      with nc have "cells queue' = cells (open_nodes_queue s) @ [?c] \<and>
                 (\<forall>e \<in> set [?c]. \<not> is_closed (closed_nodes s) (position e))" by simp
      then show ?thesis unfolding s' by (simp del: set_simps)
    qed
  qed
qed

lemma a_star_loop_pushes:
  "a_star_loop current_cell ns s = Inr s' \<Longrightarrow>
   closed_nodes s' = closed_nodes s \<and>
   (\<exists>pushed. mset (cells (open_nodes_queue s')) = mset (cells (open_nodes_queue s)) + mset pushed \<and>
      (\<forall>e \<in> set pushed. \<not> is_closed (closed_nodes s) (position e)))"
proof (induction ns arbitrary: s)
  case Nil
  then have "closed_nodes s' = closed_nodes s"
    and "mset (cells (open_nodes_queue s')) = mset (cells (open_nodes_queue s)) + mset []"
    by (auto simp: mset_qsort)
  then show ?case by (metis empty_iff empty_set)
next
  case (Cons n ns)
  show ?case
  proof (cases "assess_neighbour current_cell n s")
    case (Inl e)
    with Cons.prems show ?thesis by simp
  next
    case (Inr r)
    show ?thesis
    proof (cases r)
      case (Continue s1)
      with Inr Cons.prems have l: "a_star_loop current_cell ns s1 = Inr s'" by simp
      from assess_neighbour_pushes [of current_cell n s s1] Inr Continue
      obtain p1 where c1: "closed_nodes s1 = closed_nodes s"
        and q1: "cells (open_nodes_queue s1) = cells (open_nodes_queue s) @ p1"
        and n1: "\<forall>e \<in> set p1. \<not> is_closed (closed_nodes s) (position e)"
        by auto
      from Cons.IH [OF l] obtain p2 where c2: "closed_nodes s' = closed_nodes s1"
        and q2: "mset (cells (open_nodes_queue s')) = mset (cells (open_nodes_queue s1)) + mset p2"
        and n2: "\<forall>e \<in> set p2. \<not> is_closed (closed_nodes s1) (position e)"
        by auto
      have "mset (cells (open_nodes_queue s')) = mset (cells (open_nodes_queue s)) + mset (p1 @ p2)"
        using q1 q2 by simp
      moreover have "\<forall>e \<in> set (p1 @ p2). \<not> is_closed (closed_nodes s) (position e)"
        using n1 n2 c1 by auto
      ultimately show ?thesis using c1 c2 by metis
    next
      case (Return s1)
      with Inr Cons.prems have "s1 = s'" by simp
      with assess_neighbour_Return [of current_cell n s s'] Inr Return
      have "closed_nodes s' = closed_nodes s"
        and "mset (cells (open_nodes_queue s')) = mset (cells (open_nodes_queue s)) + mset []"
        by auto
      then show ?thesis by (metis empty_iff empty_set)
    qed
  qed
qed

subsection \<open>The walk of draw_path\<close>

lemma draw_path_loop_cycle:
  "gr p = c \<Longrightarrow> position c = p \<Longrightarrow> parent_position c = p \<Longrightarrow> state c = CELL_PATH \<Longrightarrow>
   in_grid p \<Longrightarrow> force_stop \<le> 1000 \<Longrightarrow> draw_path_loop gr c force_stop = Inr (gr, 1000)"
proof (induction gr c force_stop rule: draw_path_loop.induct)
  case (1 gr tmp_cell force_stop)
  define gr1 where "gr1 = gr(position tmp_cell := (gr (position tmp_cell))\<lparr>state := CELL_PATH\<rparr>)"
  note unf = draw_path_loop.simps [of gr tmp_cell force_stop, folded gr1_def]
  have "(gr (position tmp_cell))\<lparr>state := CELL_PATH\<rparr> = gr (position tmp_cell)"
    using "1.prems" by simp
  then have same: "gr1 = gr"
    unfolding gr1_def by simp
  show ?case
  proof (cases "force_stop < 1000")
    case False
    with "1.prems" show ?thesis by (subst draw_path_loop.simps) simp
  next
    case True
    have c2: "\<not> (\<not> in_grid (position tmp_cell) \<or> \<not> in_grid (parent_position tmp_cell))"
      using "1.prems" by simp
    have ns: "\<not> (x (parent_position (gr1 (parent_position tmp_cell))) = - 1 \<and>
                 y (parent_position (gr1 (parent_position tmp_cell))) = - 1)"
      unfolding same using "1.prems" in_grid_not_sentinel by auto
    have nx: "gr1 (parent_position tmp_cell) = tmp_cell"
      unfolding same using "1.prems" by simp
    have "draw_path_loop gr1 (gr1 (parent_position tmp_cell)) (force_stop + 1) = Inr (gr1, 1000)"
      using "1.IH" [OF True c2 ns [unfolded gr1_def], folded gr1_def] "1.prems" True
      unfolding nx same by simp
    with True c2 ns show ?thesis unfolding unf by (simp add: same)
  qed
qed

lemma links_inside_mark: "links_inside gr \<Longrightarrow> links_inside (gr(p := (gr p)\<lparr>state := st\<rparr>))"
  by (auto simp: links_inside_def)

lemma draw_path_loop_returns:
  "links_inside gr \<Longrightarrow> in_grid (position tmp_cell) \<Longrightarrow> in_grid (parent_position tmp_cell) \<Longrightarrow>
   force_stop \<le> 1000 \<Longrightarrow>
   \<exists>gr' k. draw_path_loop gr tmp_cell force_stop = Inr (gr', k) \<and> force_stop \<le> k \<and> k \<le> 1000"
proof (induction gr tmp_cell force_stop rule: draw_path_loop.induct)
  case (1 gr tmp_cell force_stop)
  define gr1 where "gr1 = gr(position tmp_cell := (gr (position tmp_cell))\<lparr>state := CELL_PATH\<rparr>)"
  note unf = draw_path_loop.simps [of gr tmp_cell force_stop, folded gr1_def]
  have l1: "links_inside gr1" unfolding gr1_def using "1.prems"(1) by (rule links_inside_mark)
  show ?case
  proof (cases "force_stop < 1000")
    case False
    with "1.prems" show ?thesis by (subst draw_path_loop.simps) simp
  next
    case True
    note lt = this
    have c2: "\<not> (\<not> in_grid (position tmp_cell) \<or> \<not> in_grid (parent_position tmp_cell))"
      using "1.prems" by simp
    show ?thesis
    proof (cases "x (parent_position (gr1 (parent_position tmp_cell))) = - 1 \<and>
                  y (parent_position (gr1 (parent_position tmp_cell))) = - 1")
      case True
      with lt c2 show ?thesis by (simp add: unf)
    next
      case False
      note nb = this
      let ?t = "gr1 (parent_position tmp_cell)"
      from l1 "1.prems"(3) have p1: "in_grid (position ?t)"
        and "in_grid (parent_position ?t) \<or> parent_position ?t = \<lparr>x = - 1, y = - 1\<rparr>"
        by (auto simp: links_inside_def)
      with nb have p2: "in_grid (parent_position ?t)" by auto
      from lt have le: "force_stop + 1 \<le> 1000" by simp
      from "1.IH" [OF lt c2 nb [unfolded gr1_def] l1 [unfolded gr1_def] p1 [unfolded gr1_def] p2 [unfolded gr1_def] le]
      obtain gr' k where "draw_path_loop gr1 ?t (force_stop + 1) = Inr (gr', k)"
        and "force_stop + 1 \<le> k" and "k \<le> 1000"
        unfolding gr1_def by blast
      with lt c2 nb show ?thesis by (simp add: unf)
    qed
  qed
qed

subsection \<open>Rows and marks\<close>

lemma row_get_put_Nil:
  "0 \<le> i \<Longrightarrow> 0 \<le> j \<Longrightarrow> row_get d (row_put d [] i v) j = (if i = j then v else d)"
proof (induction "nat i" arbitrary: i j)
  case 0
  then show ?case by (cases "j \<le> 0") auto
next
  case (Suc k)
  then have i: "0 < i" "nat (i - 1) = k" "0 \<le> i - 1" by auto
  show ?case
  proof (cases "j \<le> 0")
    case True
    with i Suc.prems show ?thesis by auto
  next
    case False
    then have "0 \<le> j - 1" by simp
    from Suc.hyps(1) [OF i(2) [symmetric] i(3) this] i False show ?thesis by auto
  qed
qed

lemma row_get_put:
  "0 \<le> i \<Longrightarrow> 0 \<le> j \<Longrightarrow> row_get d (row_put d xs i v) j = (if i = j then v else row_get d xs j)"
proof (induction xs arbitrary: i j)
  case Nil
  then show ?case using row_get_put_Nil [of i j d v] by simp
next
  case (Cons a xs)
  show ?case
  proof (cases "i \<le> 0")
    case True
    with Cons.prems show ?thesis by auto
  next
    case False
    note i = this
    show ?thesis
    proof (cases "j \<le> 0")
      case True
      with i Cons.prems show ?thesis by auto
    next
      case False
      with i Cons.IH [of "i - 1" "j - 1"] show ?thesis by auto
    qed
  qed
qed

lemma mark_at_put:
  "0 \<le> i \<Longrightarrow> 0 \<le> j \<Longrightarrow> 0 \<le> i' \<Longrightarrow> 0 \<le> j' \<Longrightarrow>
   mark_at (mark_put m i j v) i' j' = (if i = i' \<and> j = j' then v else mark_at m i' j')"
  by (simp add: mark_at_def mark_put_def row_get_put)

lemma mark_at_Nil: "mark_at [] i j = Open_count 0"
  by (simp add: mark_at_def)

subsection \<open>Insertion and the sort\<close>

lemma mset_ins: "mset (ins b T) = add_mset b (mset T)"
  by (induction T) auto

lemma set_ins: "set (ins b T) = insert b (set T)"
  by (induction T) auto

lemma sorted_ins: "sorted (map ecost T) \<Longrightarrow> sorted (map ecost (ins b T))"
  by (induction T) (auto simp: set_ins)

lemma filter_ins:
  "filter (\<lambda>e. ecost e = c) (ins b T) =
     (if ecost b = c then b # filter (\<lambda>e. ecost e = c) T else filter (\<lambda>e. ecost e = c) T)"
  by (induction T) auto

lemma sorted_neg_rev: "sorted (map ecost T) \<Longrightarrow> sorted (map (\<lambda>e. - ecost e) (rev T))"
  by (induction T) (auto simp: sorted_append)

lemma sorted_neg_rev': "sorted (map (\<lambda>e. - ecost e) S) \<Longrightarrow> sorted (map ecost (rev S))"
  by (induction S) (auto simp: sorted_append)

lemma sort_key_snoc:
  assumes "sorted (map ecost T)"
  shows "sort_key (\<lambda>e. - ecost e) (rev T @ [b]) = rev (ins b T)"
proof (rule properties_for_sort_key)
  show "mset (rev (ins b T)) = mset (rev T @ [b])"
    by (simp add: mset_ins)
  show "sorted (map (\<lambda>e. - ecost e) (rev (ins b T)))"
    using assms by (intro sorted_neg_rev sorted_ins)
  fix k assume "k \<in> set (rev (ins b T))"
  have "filter (\<lambda>e. ecost e = ecost k) (ins b T) =
        (if ecost b = ecost k then b # filter (\<lambda>e. ecost e = ecost k) T else filter (\<lambda>e. ecost e = ecost k) T)"
    by (rule filter_ins)
  then have "rev (filter (\<lambda>e. ecost e = ecost k) (ins b T)) =
        rev (filter (\<lambda>e. ecost e = ecost k) T) @ filter (\<lambda>e. ecost e = ecost k) [b]"
    by auto
  moreover have "(\<lambda>x. - ecost k = - ecost x) = (\<lambda>e. ecost e = ecost k)"
    by auto
  ultimately show "filter (\<lambda>x. - ecost k = - ecost x) (rev (ins b T)) =
        filter (\<lambda>x. - ecost k = - ecost x) (rev T @ [b])"
    by (simp add: rev_filter)
qed

lemma sort_key_sorted_prefix:
  "sort_key f (xs @ ys) = sort_key f (sort_key f xs @ ys)" for f :: "'a \<Rightarrow> int"
proof (rule properties_for_sort_key [symmetric])
  show "mset (sort_key f (xs @ ys)) = mset (sort_key f xs @ ys)"
    by simp
  show "sorted (map f (sort_key f (xs @ ys)))"
    by simp
  fix k assume "k \<in> set (sort_key f (xs @ ys))"
  have flip: "(\<lambda>x. f k = f x) = (\<lambda>x. f x = f k)"
    by auto
  show "filter (\<lambda>x. f k = f x) (sort_key f (xs @ ys)) = filter (\<lambda>x. f k = f x) (sort_key f xs @ ys)"
    unfolding flip by (simp add: sort_key_stable)
qed

lemma qsort_insert_insort:
  "qsort_insert compare_cell_cost a bs = insort_key (\<lambda>c. - cost c) a bs"
  by (induction bs) (auto simp: compare_cell_cost_def)

lemma qsort_sort_key: "qsort compare_cell_cost xs = sort_key (\<lambda>c. - cost c) xs"
  by (induction xs) (simp_all add: qsort_def qsort_insert_insort)

lemma ecost_entry_of: "ecost (entry_of c) = cost c"
  by (simp add: ecost_def entry_of_def)

lemma map_insort_entry:
  "map entry_of (insort_key (\<lambda>c. - cost c) a bs) =
   insort_key (\<lambda>e. - ecost e) (entry_of a) (map entry_of bs)"
  by (induction bs) (simp_all add: ecost_entry_of)

lemma map_qsort_entry:
  "map entry_of (qsort compare_cell_cost xs) = sort_key (\<lambda>e. - ecost e) (map entry_of xs)"
  unfolding qsort_sort_key by (induction xs) (simp_all add: map_insort_entry)

lemma sort_key_pushes:
  "sorted (map ecost T) \<Longrightarrow>
   sort_key (\<lambda>e. - ecost e) (rev T @ ps) = rev (fold ins ps T) \<and> sorted (map ecost (fold ins ps T))"
proof (induction ps rule: rev_induct)
  case Nil
  then show ?case
    by (simp add: sort_key_id_if_sorted sorted_neg_rev)
next
  case (snoc b ps)
  then have ih: "sort_key (\<lambda>e. - ecost e) (rev T @ ps) = rev (fold ins ps T)"
    and st: "sorted (map ecost (fold ins ps T))"
    by simp_all
  have "sort_key (\<lambda>e. - ecost e) (rev T @ ps @ [b]) =
        sort_key (\<lambda>e. - ecost e) (sort_key (\<lambda>e. - ecost e) (rev T @ ps) @ [b])"
    using sort_key_sorted_prefix [of "\<lambda>e. - ecost e" "rev T @ ps" "[b]"] by simp
  also have "\<dots> = rev (ins b (fold ins ps T))"
    unfolding ih by (rule sort_key_snoc [OF st])
  finally show ?case using st by (simp add: sorted_ins)
qed

lemma ins_skip_replicate:
  "ecost e < ecost b \<Longrightarrow> ins b (replicate k e @ L) = replicate k e @ ins b L"
  by (induction k) auto

lemma expand_run_ins:
  "\<forall>r \<in> set rs. 0 < snd r \<Longrightarrow>
   expand_runs (run_ins b rs) = ins b (expand_runs rs) \<and> (\<forall>r \<in> set (run_ins b rs). 0 < snd r)"
proof (induction rs)
  case Nil
  then show ?case by simp
next
  case (Cons r rs)
  obtain e n where r: "r = (e, n)" by (cases r)
  from Cons.prems r have n: "0 < n" and rest: "\<forall>r \<in> set rs. 0 < snd r" by auto
  from n obtain k where k: "nat n = Suc k" by (cases "nat n") auto
  from n have k1: "nat (n + 1) = Suc (nat n)" by simp
  show ?case
  proof (cases "ecost e < ecost b")
    case True
    with Cons.IH [OF rest] r n show ?thesis
      by (auto simp: ins_skip_replicate)
  next
    case False
    with r n rest k k1 show ?thesis by auto
  qed
qed

lemma expand_fold_run_ins:
  "\<forall>r \<in> set rs. 0 < snd r \<Longrightarrow>
   expand_runs (fold run_ins ps rs) = fold ins ps (expand_runs rs) \<and>
   (\<forall>r \<in> set (fold run_ins ps rs). 0 < snd r)"
proof (induction ps arbitrary: rs)
  case Nil
  then show ?case by simp
next
  case (Cons b ps)
  from expand_run_ins [OF Cons.prems, of b]
  have 1: "expand_runs (run_ins b rs) = ins b (expand_runs rs)"
    and 2: "\<forall>r \<in> set (run_ins b rs). 0 < snd r" by simp_all
  from Cons.IH [OF 2] 1 show ?case by simp
qed

subsection \<open>The marks follow the state\<close>

lemma count_list_snoc: "count_list (xs @ [a]) p = count_list xs p + (if a = p then 1 else 0)"
  by (induction xs) auto

lemma in_grid_nonneg: "in_grid p \<Longrightarrow> 0 \<le> x p \<and> 0 \<le> y p"
  by (auto simp: in_grid_def)

lemma in_grid_pair: "in_grid \<lparr>x = nx, y = ny\<rparr> = (\<not> (nx < 0 \<or> nx > CELL_COUNT - 1 \<or> ny < 0 \<or> ny > CELL_COUNT - 1))"
  by (simp add: in_grid_def)

lemma in_queue_by_count:
  assumes "in_grid n"
  shows "in_queue (open_nodes_queue t) n =
         (\<not> (if top_of t = (x n, y n)
              then int (count_list (map position (cells (open_nodes_queue t))) n) \<le> 1
              else int (count_list (map position (cells (open_nodes_queue t))) n) = 0))"
proof (cases "cells (open_nodes_queue t) = []")
  case True
  from assms have "(- 1, - 1) \<noteq> (x n, y n)" by (auto simp: in_grid_def)
  with True show ?thesis by (simp add: in_queue_iff top_of_def)
next
  case False
  let ?cs = "cells (open_nodes_queue t)"
  from False have split: "?cs = butlast ?cs @ [last ?cs]" by simp
  have cnt: "count_list (map position ?cs) n =
             count_list (map position (butlast ?cs)) n + (if position (last ?cs) = n then 1 else 0)"
    by (subst split) (simp only: map_append list.map count_list_snoc)
  have top: "(top_of t = (x n, y n)) = (position (last ?cs) = n)"
    using False by (auto simp: top_of_def)
  have mem: "(n \<in> set (map position (butlast ?cs))) = (0 < count_list (map position (butlast ?cs)) n)"
    using count_list_0_iff [of "map position (butlast ?cs)" n] by auto
  show ?thesis
    unfolding in_queue_iff top mem cnt by auto
qed

lemma mark_ok_cong:
  "state (grid s' p) = state (grid s p) \<Longrightarrow>
   is_closed (closed_nodes s') p = is_closed (closed_nodes s) p \<Longrightarrow>
   count_list (map position (cells (open_nodes_queue s'))) p =
   count_list (map position (cells (open_nodes_queue s))) p \<Longrightarrow>
   mark_ok s' p mk = mark_ok s p mk"
  by (cases mk) simp_all

lemma mark_ok_not_wall:
  "mark_ok s p mk \<Longrightarrow> mk \<noteq> Wall \<Longrightarrow> mk \<noteq> Goal \<Longrightarrow>
   state (grid s p) \<noteq> CELL_BARRIER \<and> state (grid s p) \<noteq> CELL_TARGET"
  by (cases mk) simp_all

lemma assess_skip:
  assumes mk: "marks_ok m t"
    and ing: "\<not> (nx < 0 \<or> nx > CELL_COUNT - 1 \<or> ny < 0 \<or> ny > CELL_COUNT - 1)"
    and d: "decide cx cy cg nx ny (top_of t) (mark_at m nx ny) = Some None"
    and cur: "x (position current_cell) = cx" "y (position current_cell) = cy" "g_cost current_cell = cg"
  shows "assess_neighbour current_cell \<lparr>x = nx, y = ny\<rparr> t = Inr (Continue t)"
proof -
  let ?n = "\<lparr>x = nx, y = ny\<rparr>"
  from ing have g: "in_grid ?n" by (simp add: in_grid_pair)
  with mk have ok: "mark_ok t ?n (mark_at m nx ny)"
    by (auto simp: marks_ok_def)
  have ng: "neighbour_g current_cell ?n = cg + compute_distance cx cy nx ny"
    by (simp add: neighbour_g_def cur)
  show ?thesis
  proof (cases "mark_at m nx ny")
    case Wall
    with ok ing show ?thesis by (simp add: assess_neighbour_def)
  next
    case Goal
    with d show ?thesis by (simp add: decide_def)
  next
    case Shut
    with ok ing show ?thesis by (simp add: assess_neighbour_def)
  next
    case (Open_count k)
    with ok have st: "state (grid t ?n) \<noteq> CELL_BARRIER" "state (grid t ?n) \<noteq> CELL_TARGET"
      and nc: "\<not> is_closed (closed_nodes t) ?n"
      and k: "k = int (count_list (map position (cells (open_nodes_queue t))) ?n)"
      by simp_all
    from d Open_count have
      "\<not> ((if top_of t = (nx, ny) then k \<le> 1 else k = 0) \<or> cg + compute_distance cx cy nx ny \<le> g nx ny)"
      by (auto simp: decide_def split: if_splits)
    then have "in_queue (open_nodes_queue t) ?n" and "\<not> neighbour_g current_cell ?n \<le> g nx ny"
      using in_queue_by_count [OF g, of t] k ng by auto
    with st nc ing show ?thesis by (simp add: assess_neighbour_def)
  qed
qed

lemma assess_push:
  assumes mk: "marks_ok m t"
    and ing: "\<not> (nx < 0 \<or> nx > CELL_COUNT - 1 \<or> ny < 0 \<or> ny > CELL_COUNT - 1)"
    and d: "decide cx cy cg nx ny (top_of t) (mark_at m nx ny) = Some (Some k)"
    and cur: "x (position current_cell) = cx" "y (position current_cell) = cy" "g_cost current_cell = cg"
    and len: "int (length (cells (open_nodes_queue t))) \<le> QUEUE_SIZE - 1"
    and nf: "\<not> found_target t"
  shows "\<exists>t' c'. assess_neighbour current_cell \<lparr>x = nx, y = ny\<rparr> t = Inr (Continue t') \<and>
           marks_ok (mark_put m nx ny (Open_count (k + 1))) t' \<and> \<not> found_target t' \<and>
           closed_nodes t' = closed_nodes t \<and>
           cells (open_nodes_queue t') = cells (open_nodes_queue t) @ [c'] \<and>
           entry_of c' = (nx, ny, cg + compute_distance cx cy nx ny,
                          cg + compute_distance cx cy nx ny + h nx ny)"
proof -
  let ?n = "\<lparr>x = nx, y = ny\<rparr>"
  let ?c = "updated_cell current_cell ?n (grid t ?n)"
  let ?t = "t\<lparr>grid := (grid t)(?n := ?c),
              open_nodes_queue := (open_nodes_queue t)\<lparr>cells := cells (open_nodes_queue t) @ [?c]\<rparr>\<rparr>"
  from ing have g: "in_grid ?n" by (simp add: in_grid_pair)
  with mk have ok: "mark_ok t ?n (mark_at m nx ny)"
    by (auto simp: marks_ok_def)
  have ng: "neighbour_g current_cell ?n = cg + compute_distance cx cy nx ny"
    by (simp add: neighbour_g_def cur)
  from d obtain k' where op: "mark_at m nx ny = Open_count k'"
    by (cases "mark_at m nx ny") (auto simp: decide_def)
  with d have kk: "k' = k"
    and adm: "(if top_of t = (nx, ny) then k \<le> 1 else k = 0) \<or> cg + compute_distance cx cy nx ny \<le> g nx ny"
    by (auto simp: decide_def split: if_splits)
  from ok op kk have st: "state (grid t ?n) \<noteq> CELL_BARRIER" "state (grid t ?n) \<noteq> CELL_TARGET"
    and nc: "\<not> is_closed (closed_nodes t) ?n"
    and k: "k = int (count_list (map position (cells (open_nodes_queue t))) ?n)"
    by simp_all
  from adm have adm': "\<not> in_queue (open_nodes_queue t) ?n \<or> neighbour_g current_cell ?n \<le> g nx ny"
    using in_queue_by_count [OF g, of t] k ng by auto
  have enq: "enqueue (open_nodes_queue t) ?c =
             Inr ((open_nodes_queue t)\<lparr>cells := cells (open_nodes_queue t) @ [?c]\<rparr>)"
    using len by (simp add: enqueue_def is_full_def idx_def)
  have step: "assess_neighbour current_cell ?n t = Inr (Continue ?t)"
    using st nc ing adm' enq by (simp add: assess_neighbour_def)
  have pc: "position ?c = ?n" by (simp add: updated_cell_def)
  have sc: "state ?c \<noteq> CELL_BARRIER" "state ?c \<noteq> CELL_TARGET"
    using st by (simp_all add: updated_cell_def)
  have marks: "marks_ok (mark_put m nx ny (Open_count (k + 1))) ?t"
    unfolding marks_ok_def
  proof (intro conjI allI impI ballI)
    fix p assume p: "in_grid p"
    from in_grid_nonneg [OF p] in_grid_nonneg [OF g]
    have at: "mark_at (mark_put m nx ny (Open_count (k + 1))) (x p) (y p) =
              (if p = ?n then Open_count (k + 1) else mark_at m (x p) (y p))"
      by (subst mark_at_put) auto
    show "mark_ok ?t p (mark_at (mark_put m nx ny (Open_count (k + 1))) (x p) (y p))"
    proof (cases "p = ?n")
      case True
      with at sc nc k pc show ?thesis by (simp add: count_list_snoc)
    next
      case False
      from mk p have "mark_ok t p (mark_at m (x p) (y p))" by (simp add: marks_ok_def)
      moreover have "mark_ok ?t p (mark_at m (x p) (y p)) = mark_ok t p (mark_at m (x p) (y p))"
        using False pc by (intro mark_ok_cong) (auto simp: count_list_snoc)
      ultimately show ?thesis using at False by simp
    qed
  next
    fix e assume "e \<in> set (cells (open_nodes_queue ?t))"
    then have "e = ?c \<or> e \<in> set (cells (open_nodes_queue t))" by auto
    then show "in_grid (position e)"
      using mk g pc by (auto simp: marks_ok_def)
  next
    fix e assume "e \<in> set (cells (open_nodes_queue ?t))"
    then have e: "e = ?c \<or> e \<in> set (cells (open_nodes_queue t))" by auto
    show "state (grid ?t (position e)) \<noteq> CELL_BARRIER"
    proof (cases "position e = ?n")
      case True
      with sc show ?thesis by simp
    next
      case False
      with e pc have "e \<in> set (cells (open_nodes_queue t))" by auto
      with mk False show ?thesis by (auto simp: marks_ok_def)
    qed
  next
    fix e assume "e \<in> set (cells (open_nodes_queue ?t))"
    then have e: "e = ?c \<or> e \<in> set (cells (open_nodes_queue t))" by auto
    show "state (grid ?t (position e)) \<noteq> CELL_TARGET"
    proof (cases "position e = ?n")
      case True
      with sc show ?thesis by simp
    next
      case False
      with e pc have "e \<in> set (cells (open_nodes_queue t))" by auto
      with mk False show ?thesis by (auto simp: marks_ok_def)
    qed
  qed
  have ent: "entry_of ?c = (nx, ny, cg + compute_distance cx cy nx ny,
                            cg + compute_distance cx cy nx ny + h nx ny)"
    by (simp add: entry_of_def updated_cell_def ng)
  show ?thesis
    using step marks nf ent by (intro exI [of _ ?t] exI [of _ ?c]) simp
qed

lemma compact_loop_sim:
  assumes cur: "x (position current_cell) = cx" "y (position current_cell) = cy" "g_cost current_cell = cg"
  shows "compact_loop cx cy cg ns m pushes tp ql = Some (m', pushes', ql') \<Longrightarrow>
         loop_rel base m pushes tp ql t \<Longrightarrow>
         \<exists>t'. a_star_loop current_cell (map (\<lambda>(a, b). \<lparr>x = a, y = b\<rparr>) ns) t = Inr (sorted_queue t') \<and>
              loop_rel base m' pushes' (top_of t') ql' t' \<and> closed_nodes t' = closed_nodes t"
proof (induction ns arbitrary: m pushes tp ql t)
  case Nil
  then show ?case
    by (auto simp: sorted_queue_def loop_rel_def)
next
  case (Cons n ns)
  obtain nx ny where n: "n = (nx, ny)" by (cases n)
  note run = Cons.prems(1) [unfolded n]
  note rel = Cons.prems(2)
  show ?case
  proof (cases "nx < 0 \<or> nx > CELL_COUNT - 1 \<or> ny < 0 \<or> ny > CELL_COUNT - 1")
    case True
    then have a: "assess_neighbour current_cell \<lparr>x = nx, y = ny\<rparr> t = Inr (Continue t)"
      by (simp add: assess_neighbour_def)
    from run True have "compact_loop cx cy cg ns m pushes tp ql = Some (m', pushes', ql')"
      by simp
    from Cons.IH [OF this rel] a show ?thesis by (simp add: n)
  next
    case False
    note ing = this
    from rel have mk: "marks_ok m t" and nf: "\<not> found_target t" and tp: "tp = top_of t"
      and ql: "ql = int (length (cells (open_nodes_queue t)))"
      by (simp_all add: loop_rel_def)
    from rel obtain ps where ps: "cells (open_nodes_queue t) = base @ ps" "map entry_of ps = rev pushes"
      by (auto simp: loop_rel_def)
    show ?thesis
    proof (cases "decide cx cy cg nx ny tp (mark_at m nx ny)")
      case None
      with run ing show ?thesis by simp
    next
      case (Some r)
      show ?thesis
      proof (cases r)
        case None
        with Some have d: "decide cx cy cg nx ny (top_of t) (mark_at m nx ny) = Some None"
          by (simp add: tp)
        from assess_skip [OF mk ing d cur]
        have a: "assess_neighbour current_cell \<lparr>x = nx, y = ny\<rparr> t = Inr (Continue t)" .
        from run ing Some None have "compact_loop cx cy cg ns m pushes tp ql = Some (m', pushes', ql')"
          by simp
        from Cons.IH [OF this rel] a show ?thesis by (simp add: n)
      next
        case (Some k)
        with \<open>decide cx cy cg nx ny tp (mark_at m nx ny) = Some r\<close>
        have d: "decide cx cy cg nx ny (top_of t) (mark_at m nx ny) = Some (Some k)"
          by (simp add: tp)
        from run ing d tp have le: "\<not> ql > QUEUE_SIZE - 1"
          by (auto split: if_splits)
        let ?e = "(nx, ny, cg + compute_distance cx cy nx ny, cg + compute_distance cx cy nx ny + h nx ny)"
        from run ing d tp le have run':
          "compact_loop cx cy cg ns (mark_put m nx ny (Open_count (k + 1))) (?e # pushes) (nx, ny) (ql + 1) =
           Some (m', pushes', ql')"
          by simp
        from le ql have len: "int (length (cells (open_nodes_queue t))) \<le> QUEUE_SIZE - 1" by simp
        from assess_push [OF mk ing d cur len nf]
        obtain t1 c1 where a: "assess_neighbour current_cell \<lparr>x = nx, y = ny\<rparr> t = Inr (Continue t1)"
          and mk1: "marks_ok (mark_put m nx ny (Open_count (k + 1))) t1"
          and nf1: "\<not> found_target t1"
          and cl1: "closed_nodes t1 = closed_nodes t"
          and q1: "cells (open_nodes_queue t1) = cells (open_nodes_queue t) @ [c1]"
          and e1: "entry_of c1 = ?e"
          by blast
        from e1 have "top_of t1 = (nx, ny)"
          by (simp add: top_of_def q1 entry_of_def)
        moreover have "cells (open_nodes_queue t1) = base @ (ps @ [c1])"
          by (simp add: q1 ps)
        moreover have "map entry_of (ps @ [c1]) = rev (?e # pushes)"
          by (simp add: ps e1)
        ultimately have rel1:
          "loop_rel base (mark_put m nx ny (Open_count (k + 1))) (?e # pushes) (nx, ny) (ql + 1) t1"
          unfolding loop_rel_def using mk1 nf1 ql q1 by (simp del: map_append)
        from Cons.IH [OF run' rel1] a cl1 show ?thesis by (simp add: n)
      qed
    qed
  qed
qed

lemma marks_ok_sorted_queue: "marks_ok m t \<Longrightarrow> marks_ok m (sorted_queue t)"
proof -
  assume a: "marks_ok m t"
  have c: "count_list (map position (qsort compare_cell_cost cs)) p = count_list (map position cs) p" for cs p
  proof -
    have "mset (map position (qsort compare_cell_cost cs)) = mset (map position cs)"
      by (simp add: mset_qsort)
    then show ?thesis by (metis count_mset)
  qed
  have "mark_ok (sorted_queue t) p mk = mark_ok t p mk" for p mk
    by (rule mark_ok_cong) (simp_all add: sorted_queue_def c)
  with a show ?thesis
    by (simp add: marks_ok_def) (simp add: sorted_queue_def set_qsort)
qed

lemma expand_runs_pop:
  "0 < n \<Longrightarrow> expand_runs ((e, n) # rs) = e # expand_runs (if n \<le> 1 then rs else (e, n - 1) # rs)"
proof -
  assume n: "0 < n"
  then obtain k where k: "nat n = Suc k" by (cases "nat n") auto
  show ?thesis
  proof (cases "n \<le> 1")
    case True
    with n have "nat n = 1" by simp
    with True show ?thesis by simp
  next
    case False
    then have "nat (n - 1) = k" using k by simp
    with False k show ?thesis by simp
  qed
qed

lemma top_pos_expand:
  "\<forall>r \<in> set rest. 0 < snd r \<Longrightarrow> map entry_of cs = rev (expand_runs rest) \<Longrightarrow>
   top_pos rest = (if cs = [] then (- 1, - 1) else (x (position (last cs)), y (position (last cs))))"
proof (cases rest)
  case Nil
  assume "map entry_of cs = rev (expand_runs rest)"
  with Nil show ?thesis by simp
next
  case (Cons r rs)
  assume pos: "\<forall>r \<in> set rest. 0 < snd r" and m: "map entry_of cs = rev (expand_runs rest)"
  obtain ex ey eg ec n where r: "r = ((ex, ey, eg, ec), n)" by (cases r) auto
  from pos Cons r have "0 < n" by simp
  from expand_runs_pop [OF this, of "(ex, ey, eg, ec)" rs]
  have "expand_runs rest =
        (ex, ey, eg, ec) # expand_runs (if n \<le> 1 then rs else ((ex, ey, eg, ec), n - 1) # rs)"
    unfolding Cons r .
  with m have me: "map entry_of cs =
        rev (expand_runs (if n \<le> 1 then rs else ((ex, ey, eg, ec), n - 1) # rs)) @ [(ex, ey, eg, ec)]"
    by (simp only: rev.simps)
  then have ne: "cs \<noteq> []" by auto
  with me have "entry_of (last cs) = (ex, ey, eg, ec)"
    by (metis last_map last_snoc)
  with ne Cons r show ?thesis by (simp add: entry_of_def)
qed

lemma marks_ok_close:
  assumes mk: "marks_ok m s"
    and ne: "cells (open_nodes_queue s) \<noteq> []"
    and cur: "current_cell = last (cells (open_nodes_queue s))"
    and s1: "s1 = s\<lparr>open_nodes_queue := (open_nodes_queue s)\<lparr>cells := butlast (cells (open_nodes_queue s))\<rparr>,
                    closed_nodes := closed_nodes s @ [current_cell],
                    grid := (if state (grid s (position current_cell)) \<noteq> CELL_START
                             then (grid s)(position current_cell :=
                                    (grid s (position current_cell))\<lparr>state := CELL_VISITED\<rparr>)
                             else grid s)\<rparr>"
  shows "marks_ok (mark_put m (x (position current_cell)) (y (position current_cell)) Shut) s1"
proof -
  let ?cs = "cells (open_nodes_queue s)"
  let ?q = "position current_cell"
  from ne cur have mem: "current_cell \<in> set ?cs" by simp
  with mk have gq: "in_grid ?q" and sq: "state (grid s ?q) \<noteq> CELL_BARRIER" "state (grid s ?q) \<noteq> CELL_TARGET"
    by (auto simp: marks_ok_def)
  have st1: "state (grid s1 p) = (if p = ?q \<and> state (grid s ?q) \<noteq> CELL_START then CELL_VISITED else state (grid s p))" for p
    by (simp add: s1)
  have cl1: "is_closed (closed_nodes s1) p = (p = ?q \<or> is_closed (closed_nodes s) p)" for p
    by (auto simp: s1 is_closed_iff)
  from ne have split: "?cs = butlast ?cs @ [last ?cs]" by simp
  have cnt: "count_list (map position ?cs) p =
             count_list (map position (butlast ?cs)) p + (if ?q = p then 1 else 0)" for p
    unfolding cur by (subst split) (simp only: map_append list.map count_list_snoc)
  have q1: "cells (open_nodes_queue s1) = butlast ?cs" by (simp add: s1)
  show ?thesis
    unfolding marks_ok_def
  proof (intro conjI allI impI ballI)
    fix p assume p: "in_grid p"
    from in_grid_nonneg [OF p] in_grid_nonneg [OF gq]
    have at: "mark_at (mark_put m (x ?q) (y ?q) Shut) (x p) (y p) =
              (if p = ?q then Shut else mark_at m (x p) (y p))"
      by (subst mark_at_put) auto
    show "mark_ok s1 p (mark_at (mark_put m (x ?q) (y ?q) Shut) (x p) (y p))"
    proof (cases "p = ?q")
      case True
      with at sq st1 [of p] cl1 [of p] show ?thesis by auto
    next
      case False
      from mk p have "mark_ok s p (mark_at m (x p) (y p))" by (simp add: marks_ok_def)
      moreover have "mark_ok s1 p (mark_at m (x p) (y p)) = mark_ok s p (mark_at m (x p) (y p))"
        using False st1 [of p] cl1 [of p] cnt [of p] q1 by (intro mark_ok_cong) auto
      ultimately show ?thesis using at False by simp
    qed
  next
    fix e assume "e \<in> set (cells (open_nodes_queue s1))"
    then have "e \<in> set ?cs" unfolding q1 by (rule in_set_butlastD)
    with mk show "in_grid (position e)" by (auto simp: marks_ok_def)
  next
    fix e assume "e \<in> set (cells (open_nodes_queue s1))"
    then have "e \<in> set ?cs" unfolding q1 by (rule in_set_butlastD)
    with mk have "state (grid s (position e)) \<noteq> CELL_BARRIER" by (auto simp: marks_ok_def)
    then show "state (grid s1 (position e)) \<noteq> CELL_BARRIER"
      unfolding st1 by auto
  next
    fix e assume "e \<in> set (cells (open_nodes_queue s1))"
    then have "e \<in> set ?cs" unfolding q1 by (rule in_set_butlastD)
    with mk have "state (grid s (position e)) \<noteq> CELL_TARGET" by (auto simp: marks_ok_def)
    then show "state (grid s1 (position e)) \<noteq> CELL_TARGET"
      unfolding st1 by auto
  qed
qed

lemma neighbours_pairs:
  "map (\<lambda>(a, b). \<lparr>x = a, y = b\<rparr>) (compact_neighbours cx cy) = neighbours cx cy"
  by (simp add: compact_neighbours_def neighbours_def)

subsection \<open>a_star follows the compact step\<close>

lemma compact_step_sim:
  assumes rel: "compact_rel c s" and step: "compact_step c = Some c'"
  shows "\<exists>s'. a_star s = Inr s' \<and> compact_rel c' s'"
proof -
  let ?cs = "cells (open_nodes_queue s)"
  from rel have nf: "\<not> found_target s"
    and qmap: "map entry_of ?cs = rev (expand_runs (runs c))"
    and pos: "\<forall>r \<in> set (runs c). 0 < snd r"
    and srt: "sorted (map ecost (expand_runs (runs c)))"
    and ql: "qlen c = int (length ?cs)"
    and nc: "nclosed c = int (length (closed_nodes s))"
    and mk: "marks_ok (marks c) s"
    by (simp_all add: compact_rel_def)
  from step obtain cx cy cg cc n rs where rc: "runs c = ((cx, cy, cg, cc), n) # rs"
    by (cases "runs c") (auto simp: compact_step_def)
  define rest where "rest = (if n \<le> 1 then rs else ((cx, cy, cg, cc), n - 1) # rs)"
  from step rc have ex: "compact_expand c rest cx cy cg = Some c'"
    by (simp add: compact_step_def rest_def)
  from pos rc have n: "0 < n" by simp
  have E: "expand_runs (runs c) = (cx, cy, cg, cc) # expand_runs rest"
    unfolding rc rest_def by (rule expand_runs_pop [OF n])
  with qmap have qm: "map entry_of ?cs = rev (expand_runs rest) @ [(cx, cy, cg, cc)]"
    by (simp only: rev.simps)
  then have ne: "?cs \<noteq> []" by auto
  define current_cell where "current_cell = last ?cs"
  from qm ne have ecur: "entry_of current_cell = (cx, cy, cg, cc)"
    unfolding current_cell_def by (metis last_map last_snoc)
  then have cur: "x (position current_cell) = cx" "y (position current_cell) = cy" "g_cost current_cell = cg"
    by (simp_all add: entry_of_def)
  from qm ne have bm: "map entry_of (butlast ?cs) = rev (expand_runs rest)"
    by (metis butlast_snoc map_butlast)
  from pos rc n have pos': "\<forall>r \<in> set rest. 0 < snd r"
    by (auto simp: rest_def)
  from srt E have srt': "sorted (map ecost (expand_runs rest))" by simp
  define queue where "queue = (open_nodes_queue s)\<lparr>cells := butlast ?cs\<rparr>"
  have pop: "pop (open_nodes_queue s) = Some (current_cell, queue)"
    using ne by (simp add: pop_def is_empty_queue_def idx_def current_cell_def queue_def)
  from ex have ncl: "\<not> nclosed c > QUEUE_SIZE - 1"
    by (auto simp: compact_expand_def split: if_splits)
  from ne have mem: "current_cell \<in> set ?cs" by (simp add: current_cell_def)
  with mk have gcur: "in_grid (position current_cell)" by (auto simp: marks_ok_def)
  define s1 where "s1 = s\<lparr>open_nodes_queue := queue,
                    closed_nodes := closed_nodes s @ [current_cell],
                    grid := (if state (grid s (position current_cell)) \<noteq> CELL_START
                             then (grid s)(position current_cell :=
                                    (grid s (position current_cell))\<lparr>state := CELL_VISITED\<rparr>)
                             else grid s)\<rparr>"
  have close: "close_current current_cell queue s = Inr s1"
    using ncl nc gcur by (simp add: close_current_def closed_nodes_count_def s1_def)
  have mk1: "marks_ok (mark_put (marks c) cx cy Shut) s1"
    using marks_ok_close [OF mk ne current_cell_def s1_def [unfolded queue_def]] cur by simp
  have q1: "cells (open_nodes_queue s1) = butlast ?cs" by (simp add: s1_def queue_def)
  have tp: "top_pos rest = top_of s1"
    using top_pos_expand [OF pos' bm] by (simp add: top_of_def q1)
  have lb: "int (length (butlast ?cs)) = int (length ?cs) - 1"
    using ne by (cases ?cs rule: rev_cases) simp_all
  have rel1: "loop_rel (butlast ?cs) (mark_put (marks c) cx cy Shut) [] (top_pos rest) (qlen c - 1) s1"
    unfolding loop_rel_def using mk1 tp nf ql lb q1 by (simp add: s1_def del: length_butlast)
  from ex ncl obtain m' pushes' ql' where
    loop: "compact_loop cx cy cg (compact_neighbours cx cy) (mark_put (marks c) cx cy Shut) []
             (top_pos rest) (qlen c - 1) = Some (m', pushes', ql')"
    and c': "c' = \<lparr>marks = m', runs = fold run_ins (rev pushes') rest, qlen = ql', nclosed = nclosed c + 1\<rparr>"
    by (auto simp: compact_expand_def split: option.splits)
  from compact_loop_sim [OF cur loop rel1]
  obtain t' where run: "a_star_loop current_cell (neighbours cx cy) s1 = Inr (sorted_queue t')"
    and rel': "loop_rel (butlast ?cs) m' pushes' (top_of t') ql' t'"
    and cl': "closed_nodes t' = closed_nodes s1"
    unfolding neighbours_pairs by blast
  have star: "a_star s = Inr (sorted_queue t')"
    using nf pop close run cur by (simp add: a_star_def)
  from rel' have nf': "\<not> found_target t'" and mk': "marks_ok m' t'"
    and ql': "ql' = int (length (cells (open_nodes_queue t')))"
    by (simp_all add: loop_rel_def)
  from rel' obtain ps where ps: "cells (open_nodes_queue t') = butlast ?cs @ ps"
    "map entry_of ps = rev pushes'"
    by (auto simp: loop_rel_def)
  have "map entry_of (qsort compare_cell_cost (cells (open_nodes_queue t'))) =
        sort_key (\<lambda>e. - ecost e) (rev (expand_runs rest) @ rev pushes')"
    by (simp add: map_qsort_entry ps bm)
  also have "\<dots> = rev (fold ins (rev pushes') (expand_runs rest))"
    using sort_key_pushes [OF srt'] by simp
  also have "\<dots> = rev (expand_runs (fold run_ins (rev pushes') rest))"
    using expand_fold_run_ins [OF pos'] by simp
  finally have qmap': "map entry_of (cells (open_nodes_queue (sorted_queue t'))) =
                       rev (expand_runs (runs c'))"
    by (simp add: sorted_queue_def c')
  have pos'': "\<forall>r \<in> set (runs c'). 0 < snd r"
    using expand_fold_run_ins [OF pos'] by (simp add: c')
  have srt'': "sorted (map ecost (expand_runs (runs c')))"
    using sort_key_pushes [OF srt'] expand_fold_run_ins [OF pos'] by (simp add: c')
  have "compact_rel c' (sorted_queue t')"
    unfolding compact_rel_def
    using qmap' pos'' srt'' marks_ok_sorted_queue [OF mk'] nf' ql' cl' nc
    by (simp add: c' sorted_queue_def length_qsort s1_def)
  with star show ?thesis by blast
qed

lemma compact_steps_sim:
  "compact_rel c s \<Longrightarrow> compact_steps k c = Some c' \<Longrightarrow> \<exists>s'. a_star_n k s = Inr s' \<and> compact_rel c' s'"
proof (induction k arbitrary: c s)
  case 0
  then show ?case by simp
next
  case (Suc k)
  from Suc.prems(2) obtain c1 where 1: "compact_step c = Some c1" and 2: "compact_steps k c1 = Some c'"
    by (auto split: option.splits)
  from compact_step_sim [OF Suc.prems(1) 1] obtain s1 where a: "a_star s = Inr s1" and r: "compact_rel c1 s1"
    by blast
  from Suc.IH [OF r 2] a show ?case by simp
qed

subsection \<open>The run on the strip\<close>

lemma strip_grid_created: "create_barriers 1000 strip_draws grid_with_target = Some strip_grid"
proof -
  have "create_barriers_loop 0 1000 strip_draws grid_with_target =
        create_barriers_loop (0 + int 964) 1000
          [1, 7, 2, 7, 3, 7, 4, 7, 4, 8, 4, 9, 4, 10, 4, 11, 4, 12, 4, 13, 4, 14, 4, 15, 4, 16, 4, 17, 4, 18, 4, 19, 4, 20, 4, 21, 4, 22, 4, 23, 4, 24, 4, 25, 4, 26, 4, 27, 4, 28, 4, 29, 4, 30, 4, 31, 4, 32, 4, 33, 4, 34, 4, 35, 4, 36, 4, 37, 4, 38, 4, 39]
          (set_barrier \<lparr>x = int 0 mod CELL_COUNT, y = int 7 mod CELL_COUNT\<rparr> grid_with_target)"
    unfolding strip_draws_def
    by (rule create_barriers_loop_same_draw) (simp_all add: grid_defs consts_defs)
  also have "\<dots> = Some strip_grid"
    by (simp add: strip_grid_def strip_barriers_def grid_defs consts_defs)
  finally show ?thesis by (simp add: create_barriers_def)
qed

lemma state_fold_set_barrier:
  "state (fold set_barrier ps gr p) = (if p \<in> set ps then CELL_BARRIER else state (gr p))"
  by (induction ps arbitrary: gr) (auto simp: set_barrier_def)

lemma mark_at_fold_wall:
  "\<forall>b \<in> set bs. 0 \<le> fst b \<and> 0 \<le> snd b \<Longrightarrow> 0 \<le> i \<Longrightarrow> 0 \<le> j \<Longrightarrow>
   mark_at (fold (\<lambda>(i, j) m. mark_put m i j Wall) bs m) i j =
     (if (i, j) \<in> set bs then Wall else mark_at m i j)"
proof (induction bs arbitrary: m)
  case Nil
  show ?case by simp
next
  case (Cons b bs)
  obtain a c where b: "b = (a, c)" by (cases b)
  from Cons.prems have nn: "0 \<le> a" "0 \<le> c" and rest: "\<forall>b \<in> set bs. 0 \<le> fst b \<and> 0 \<le> snd b"
    by (simp_all add: b)
  have "mark_at (fold (\<lambda>(i, j) m. mark_put m i j Wall) (b # bs) m) i j =
        (if (i, j) \<in> set bs then Wall else mark_at (mark_put m a c Wall) i j)"
    using Cons.IH [OF rest Cons.prems(2,3)] by (simp add: b)
  also have "\<dots> = (if (i, j) \<in> set (b # bs) then Wall else mark_at m i j)"
    using mark_at_put [OF nn Cons.prems(2,3)] by (auto simp: b)
  finally show ?case .
qed

lemma strip_barriers_nonneg: "\<forall>b \<in> set strip_barriers. 0 \<le> fst b \<and> 0 \<le> snd b"
  by (simp add: strip_barriers_def)

lemma strip_compact_rel: "compact_rel strip_compact (first_state strip_grid)"
proof -
  let ?s = "first_state strip_grid"
  let ?S = "\<lparr>x = START_X, y = START_Y\<rparr>"
  let ?T = "\<lparr>x = TARGET_X, y = TARGET_Y\<rparr>"
  have sb: "(START_X, START_Y) \<notin> set strip_barriers" "(TARGET_X, TARGET_Y) \<notin> set strip_barriers"
    by (simp_all add: strip_barriers_def consts_defs)
  have st: "state (strip_grid p) =
            (if (x p, y p) \<in> set strip_barriers then CELL_BARRIER else state (grid_with_target p))" for p
  proof -
    have "(p \<in> set (map (\<lambda>(a, b). \<lparr>x = a, y = b\<rparr>) strip_barriers)) = ((x p, y p) \<in> set strip_barriers)"
      by (cases p) force
    then show ?thesis by (simp add: strip_grid_def state_fold_set_barrier)
  qed
  have at: "mark_at strip_marks (x p) (y p) =
            (if (x p, y p) \<in> set strip_barriers then Wall
             else if p = ?T then Goal else if p = ?S then Open_count 1 else Open_count 0)"
    if "in_grid p" for p
  proof -
    from in_grid_nonneg [OF that] have nn: "0 \<le> x p" "0 \<le> y p" by simp_all
    have pe: "(x p = a \<and> y p = b) = (p = \<lparr>x = a, y = b\<rparr>)" for a b
      by (cases p) auto
    show ?thesis
      unfolding strip_marks_def
      by (subst mark_at_fold_wall [OF strip_barriers_nonneg nn])
         (auto simp: mark_at_put nn mark_at_Nil consts_defs pe)
  qed
  have marks: "marks_ok strip_marks ?s"
    unfolding marks_ok_def
  proof (intro conjI allI impI ballI)
    fix p assume p: "in_grid p"
    show "mark_ok ?s p (mark_at strip_marks (x p) (y p))"
      unfolding at [OF p] using sb
      by (auto simp: first_state_def st grid_with_target_def grid_with_start_def start_cell_def
            zero_cell_def is_closed_def)
  next
    fix e assume "e \<in> set (cells (open_nodes_queue ?s))"
    then have e: "e = start_cell" by (simp add: first_state_def)
    show "in_grid (position e)"
      by (simp add: e start_cell_def in_grid_def consts_defs)
    show "state (grid ?s (position e)) \<noteq> CELL_BARRIER"
      using sb by (simp add: e first_state_def st start_cell_def grid_with_target_def
            grid_with_start_def consts_defs)
    show "state (grid ?s (position e)) \<noteq> CELL_TARGET"
      using sb by (simp add: e first_state_def st start_cell_def grid_with_target_def
            grid_with_start_def consts_defs)
  qed
  show ?thesis
    unfolding compact_rel_def using marks
    by (simp add: strip_compact_def first_state_def entry_of_def start_cell_def ecost_def)
qed

lemma compact_steps_numeral:
  "compact_steps (numeral k) c =
     (case compact_step c of None \<Rightarrow> None | Some c' \<Rightarrow> compact_steps (pred_numeral k) c')"
  by (simp add: numeral_eq_Suc)

lemma compact_steps_1: "compact_steps 1 c = compact_step c"
  by (simp split: option.splits)

lemmas num_eval =
  arith_simps rel_simps more_arith_simps numeral_plus_numeral numeral_times_numeral
  diff_numeral_simps add_neg_numeral_simps mult_neg_numeral_simps abs_numeral abs_neg_numeral
  abs_zero abs_one abs_minus_cancel numeral_One add_0 add_0_right mult_zero_left mult_zero_right
  diff_0 diff_0_right diff_self add_numeral_special diff_numeral_special minus_zero
  numeral_eq_iff neg_numeral_eq_iff numeral_neq_neg_numeral neg_numeral_neq_numeral
  zero_neq_numeral numeral_neq_zero zero_neq_neg_numeral neg_numeral_neq_zero
  one_eq_numeral_iff numeral_eq_one_iff zero_neq_one one_neq_zero neg_equal_0_iff_equal
  neg_equal_iff_equal neg_0_equal_iff_equal one_neq_neg_one neg_one_neq_one zero_neq_neg_one
  neg_one_neq_zero neg_one_eq_numeral_iff numeral_eq_neg_one_iff one_neq_neg_numeral
  neg_numeral_neq_one inc.simps simp_thms if_True if_False

lemmas compact_eval =
  compact_steps_numeral compact_steps_1 compact_steps.simps(1) compact_step_def
  compact_expand_def compact_loop.simps compact_neighbours_def decide_def run_ins.simps
  top_pos.simps mark_at_def mark_put_def row_get.simps row_put.simps ecost_def
  compute_distance_def g_def h_def consts_defs strip_marks_def strip_compact_def
  strip_barriers_def fold_simps rev.simps append.simps compact_state.simps list.case
  option.case prod.case cell_mark.case cell_mark.distinct cell_mark.inject fst_conv snd_conv
  prod.inject pred_numeral_simps list.inject list.distinct option.inject option.distinct
  num_eval

lemma strip_compact_run:
  "case compact_steps 1600 strip_compact of None \<Rightarrow> False
   | Some c \<Rightarrow> qlen c = 735 \<and> nclosed c = 1600"
  apply (simp only: compact_eval cong: if_weak_cong option.case_cong_weak list.case_cong_weak
      cell_mark.case_cong_weak prod.case_cong_weak)
  done

lemma strip_run_state:
  "\<exists>s. a_star_n 1600 (first_state strip_grid) = Inr s \<and> \<not> found_target s \<and>
       int (length (cells (open_nodes_queue s))) = 735 \<and>
       int (length (closed_nodes s)) = 1600"
proof -
  from strip_compact_run obtain c where c: "compact_steps 1600 strip_compact = Some c"
    and n: "qlen c = 735" "nclosed c = 1600"
    by (cases "compact_steps 1600 strip_compact") simp_all
  from compact_steps_sim [OF strip_compact_rel c]
  obtain s where s: "a_star_n 1600 (first_state strip_grid) = Inr s" and r: "compact_rel c s"
    by auto
  with n show ?thesis by (auto simp: compact_rel_def)
qed

subsection \<open>The claims\<close>

text \<open>
  C1 (as stated it fails). In the alley the cell (2,10) is admitted to the queue twice,
  by (3,9) and by (2,9): the second time it is found in the queue and its new \<open>g\<close> cost 24
  equals its distance from the start, which the admission test of \<^verbatim>\<open>a_star\<close> lets through.
  Both entries are popped later, and each pop appends to \<^verbatim>\<open>closed_nodes\<close>: after five
  calls the position (2,10) is in the closed array twice.
\<close>

theorem closed_nodes_repeat_counterexample:
  "\<not> (\<forall>s. reachable s \<longrightarrow> distinct (map position (closed_nodes s)))"
proof
  assume a: "\<forall>s. reachable s \<longrightarrow> distinct (map position (closed_nodes s))"
  from alley_five_steps obtain s where s: "a_star_n 5 (first_state alley_grid) = Inr s"
    and c: "map position (closed_nodes s) =
         [\<lparr>x = 3, y = 8\<rparr>, \<lparr>x = 3, y = 9\<rparr>, \<lparr>x = 2, y = 9\<rparr>, \<lparr>x = 2, y = 10\<rparr>, \<lparr>x = 2, y = 10\<rparr>]"
    by auto
  have "reachable s"
    using reachable_a_star_n [OF reachable_first_state [OF alley_grid_created] s] .
  with a have "distinct (map position (closed_nodes s))" by blast
  then show False by (simp add: c)
qed

text \<open>
  C1 (amended). A call of \<^verbatim>\<open>a_star\<close> that changes the state appends the popped top
  entry to \<^verbatim>\<open>closed_nodes\<close>, and the queue it leaves holds the other old entries and the
  entries pushed by this call; no pushed entry has a position that is in
  \<^verbatim>\<open>closed_nodes\<close> after the call. So a position is appended again only through entries
  the queue already held for it.
\<close>

theorem a_star_pushes_only_unexplored:
  assumes "a_star s = Inr s'"
  shows "s' = s \<or>
         (cells (open_nodes_queue s) \<noteq> [] \<and>
          closed_nodes s' = closed_nodes s @ [last (cells (open_nodes_queue s))] \<and>
          (\<exists>pushed.
             mset (cells (open_nodes_queue s')) =
               mset (butlast (cells (open_nodes_queue s))) + mset pushed \<and>
             (\<forall>e \<in> set pushed. \<not> is_closed (closed_nodes s') (position e))))"
proof (cases "found_target s")
  case True
  with assms show ?thesis by (simp add: a_star_def)
next
  case False
  note nf = this
  show ?thesis
  proof (cases "pop (open_nodes_queue s)")
    case None
    with nf assms show ?thesis by (simp add: a_star_def)
  next
    case (Some a)
    obtain current_cell queue where a: "a = (current_cell, queue)" by (cases a)
    from Some a have ne: "cells (open_nodes_queue s) \<noteq> []"
      and cur: "current_cell = last (cells (open_nodes_queue s))"
      and q: "cells queue = butlast (cells (open_nodes_queue s))"
      by (auto simp: pop_def is_empty_queue_def idx_def split: if_splits)
    show ?thesis
    proof (cases "close_current current_cell queue s")
      case (Inl e)
      with nf Some a assms show ?thesis by (simp add: a_star_def)
    next
      case (Inr s1)
      then have c1: "closed_nodes s1 = closed_nodes s @ [current_cell]"
        and q1: "open_nodes_queue s1 = queue"
        by (auto simp: close_current_def split: if_splits)
      from nf Some a Inr assms have
        "a_star_loop current_cell (neighbours (x (position current_cell)) (y (position current_cell))) s1 = Inr s'"
        by (simp add: a_star_def)
      from a_star_loop_pushes [OF this] c1 q1 q cur ne show ?thesis by auto
    qed
  qed
qed

theorem a_star_pushes_only_unexplored_witness:
  "\<exists>s'. a_star (first_state pocket_grid) = Inr s' \<and>
        closed_nodes s' = [start_cell] \<and>
        (\<exists>pushed.
           mset (cells (open_nodes_queue s')) = mset pushed \<and>
           (\<forall>e \<in> set pushed. \<not> is_closed (closed_nodes s') (position e)))"
proof -
  have "\<exists>s'. a_star (first_state pocket_grid) = Inr s' \<and> closed_nodes s' = [start_cell]"
    by (simp add: eval_defs first_state_def pocket_grid_def grid_defs)
  then obtain s' where a: "a_star (first_state pocket_grid) = Inr s'"
    and c: "closed_nodes s' = [start_cell]"
    by auto
  from c have "s' \<noteq> first_state pocket_grid" by (auto simp: first_state_def)
  with a_star_pushes_only_unexplored [OF a] a c show ?thesis
    by (auto simp: first_state_def)
qed

text \<open>
  C2 (the code differs). In the pocket, the second call of \<^verbatim>\<open>a_star\<close> pops the cell
  (4,9). Its neighbour (3,9) is in the queue, as the only entry and so at the top index,
  where the scan does not look. The new \<open>g\<close> cost 24 exceeds the distance 10 of (3,9)
  from the start, and the cell is still updated and pushed a second time.
\<close>

theorem top_entry_admitted_again:
  "\<exists>s1 current_cell queue s2 s3.
     a_star (first_state pocket_grid) = Inr s1 \<and>
     pop (open_nodes_queue s1) = Some (current_cell, queue) \<and>
     close_current current_cell queue s1 = Inr s2 \<and>
     position current_cell = \<lparr>x = 4, y = 9\<rparr> \<and>
     map position (cells (open_nodes_queue s2)) = [\<lparr>x = 3, y = 9\<rparr>] \<and>
     \<not> in_queue (open_nodes_queue s2) \<lparr>x = 3, y = 9\<rparr> \<and>
     neighbour_g current_cell \<lparr>x = 3, y = 9\<rparr> = 24 \<and> g 3 9 = 10 \<and>
     g_cost (grid s2 \<lparr>x = 3, y = 9\<rparr>) = 10 \<and>
     assess_neighbour current_cell \<lparr>x = 3, y = 9\<rparr> s2 = Inr (Continue s3) \<and>
     map position (cells (open_nodes_queue s3)) = [\<lparr>x = 3, y = 9\<rparr>, \<lparr>x = 3, y = 9\<rparr>] \<and>
     g_cost (grid s3 \<lparr>x = 3, y = 9\<rparr>) = 24 \<and>
     parent_position (grid s3 \<lparr>x = 3, y = 9\<rparr>) = \<lparr>x = 4, y = 9\<rparr>"
  by (simp add: eval_defs first_state_def pocket_grid_def grid_defs)

theorem top_entry_admitted_again_witness:
  "\<exists>current_cell s2 s3.
     position current_cell = \<lparr>x = 4, y = 9\<rparr> \<and>
     map position (cells (open_nodes_queue s2)) = [\<lparr>x = 3, y = 9\<rparr>] \<and>
     neighbour_g current_cell \<lparr>x = 3, y = 9\<rparr> = 24 \<and> g 3 9 = 10 \<and>
     assess_neighbour current_cell \<lparr>x = 3, y = 9\<rparr> s2 = Inr (Continue s3) \<and>
     map position (cells (open_nodes_queue s3)) = [\<lparr>x = 3, y = 9\<rparr>, \<lparr>x = 3, y = 9\<rparr>]"
  using top_entry_admitted_again by (elim exE conjE) (intro exI conjI; assumption)

text \<open>
  C3 (the code differs). On the strip the first 1600 calls of \<^verbatim>\<open>a_star\<close> stay inside
  the two arrays and do not find the target. They leave 735 entries in the queue and
  1600 records in \<^verbatim>\<open>closed_nodes\<close>, far more together than the \<open>CELL_COUNT * CELL_COUNT\<close>
  cells of the grid, and \<^verbatim>\<open>closed_nodes\<close> is full. The next call pops an entry and writes it
  to \<^verbatim>\<open>closed_nodes[closed_nodes_count++]\<close> (line 160), which no test guards: the write
  goes to index 1600, past the end of the array.
\<close>

theorem closed_nodes_overflow_on_strip:
  "\<exists>s. reachable s \<and> \<not> found_target s \<and>
       int (length (cells (open_nodes_queue s))) = 735 \<and>
       int (length (closed_nodes s)) = CELL_COUNT * CELL_COUNT \<and>
       int (length (cells (open_nodes_queue s))) + int (length (closed_nodes s)) >
         CELL_COUNT * CELL_COUNT \<and>
       a_star s = Inl Out_of_bounds"
proof -
  from strip_run_state obtain s where s: "a_star_n 1600 (first_state strip_grid) = Inr s"
    and nf: "\<not> found_target s"
    and q: "int (length (cells (open_nodes_queue s))) = 735"
    and cl: "int (length (closed_nodes s)) = 1600"
    by auto
  have re: "reachable s"
    using reachable_a_star_n [OF reachable_first_state [OF strip_grid_created] s] .
  from q have "pop (open_nodes_queue s) =
      Some (last (cells (open_nodes_queue s)),
            (open_nodes_queue s)\<lparr>cells := butlast (cells (open_nodes_queue s))\<rparr>)"
    by (simp add: pop_def is_empty_queue_def idx_def)
  moreover from cl have "close_current (last (cells (open_nodes_queue s)))
      ((open_nodes_queue s)\<lparr>cells := butlast (cells (open_nodes_queue s))\<rparr>) s = Inl Out_of_bounds"
    by (simp add: close_current_def closed_nodes_count_def consts_defs)
  ultimately have "a_star s = Inl Out_of_bounds"
    using nf by (simp add: a_star_def)
  with re nf q cl show ?thesis by (auto simp: consts_defs)
qed

theorem closed_nodes_overflow_on_strip_witness:
  "\<exists>s. reachable s \<and> \<not> found_target s \<and>
       int (length (cells (open_nodes_queue s))) = 735 \<and>
       int (length (closed_nodes s)) = CELL_COUNT * CELL_COUNT \<and>
       int (length (cells (open_nodes_queue s))) + int (length (closed_nodes s)) >
         CELL_COUNT * CELL_COUNT \<and>
       a_star s = Inl Out_of_bounds"
  using closed_nodes_overflow_on_strip by (elim exE conjE) (intro exI conjI; assumption)

text \<open>
  C4 (as stated it fails). On the grid of zero cells the cell (0,0) is its own parent.
  The walk from it is stopped by the loop condition with \<^verbatim>\<open>force_stop\<close> at 1000, and
  \<^verbatim>\<open>draw_path\<close> returns as after any other walk: nothing reports the cycle.
\<close>

theorem draw_path_cycle_stops_silently:
  "draw_path_loop (\<lambda>p. zero_cell) zero_cell 0 =
     Inr ((\<lambda>p. zero_cell)(\<lparr>x = 0, y = 0\<rparr> := zero_cell\<lparr>state := CELL_PATH\<rparr>), 1000) \<and>
   draw_path (\<lambda>p. zero_cell) zero_cell =
     Inr ((\<lambda>p. zero_cell)(\<lparr>x = 0, y = 0\<rparr> := zero_cell\<lparr>state := CELL_PATH\<rparr>))"
proof -
  let ?gr1 = "(\<lambda>p. zero_cell)(\<lparr>x = 0, y = 0\<rparr> := zero_cell\<lparr>state := CELL_PATH\<rparr>)"
  have ing: "in_grid \<lparr>x = 0, y = 0\<rparr>" by (simp add: in_grid_def consts_defs)
  have "draw_path_loop (\<lambda>p. zero_cell) zero_cell 0 = draw_path_loop ?gr1 (zero_cell\<lparr>state := CELL_PATH\<rparr>) 1"
    using ing by (subst draw_path_loop.simps) (simp add: zero_cell_def)
  also have "\<dots> = Inr (?gr1, 1000)"
    by (rule draw_path_loop_cycle [where p = "\<lparr>x = 0, y = 0\<rparr>"]) (simp_all add: zero_cell_def ing)
  finally have l: "draw_path_loop (\<lambda>p. zero_cell) zero_cell 0 = Inr (?gr1, 1000)" .
  have "position zero_cell = \<lparr>x = 0, y = 0\<rparr>" by (simp add: zero_cell_def)
  with l ing show ?thesis by (simp add: draw_path_def)
qed

text \<open>
  C4 (amended). On every grid whose position and parent fields stay inside the grid
  (or are the start's marker), cyclic chains included, the walk of \<^verbatim>\<open>draw_path\<close> returns
  normally with \<^verbatim>\<open>force_stop\<close> between 0 and 1000: its body runs at most 1000 times, the
  limit written in the source (below the cell count 1600), and a walk stopped by the
  limit is cut short without any report.
\<close>

theorem draw_path_bounded_silent:
  assumes "links_inside gr" and "in_grid (position current_cell)"
    and "in_grid (parent_position (gr (position current_cell)))"
  shows "\<exists>gr' k. draw_path_loop gr (gr (position current_cell)) 0 = Inr (gr', k) \<and>
                 0 \<le> k \<and> k \<le> 1000 \<and> draw_path gr current_cell = Inr gr'"
proof -
  from assms have "in_grid (position (gr (position current_cell)))"
    by (simp add: links_inside_def)
  from draw_path_loop_returns [OF assms(1) this assms(3), of 0]
  obtain gr' k where "draw_path_loop gr (gr (position current_cell)) 0 = Inr (gr', k)"
    and "0 \<le> k" and "k \<le> 1000"
    by auto
  with assms(2) show ?thesis by (simp add: draw_path_def)
qed

theorem draw_path_bounded_silent_witness:
  "\<exists>gr' k. draw_path_loop one_link_grid (one_link_grid \<lparr>x = 4, y = 9\<rparr>) 0 = Inr (gr', k) \<and>
           0 \<le> k \<and> k \<le> 1000 \<and>
           draw_path one_link_grid (one_link_grid \<lparr>x = 4, y = 9\<rparr>) = Inr gr' \<and>
           state (gr' \<lparr>x = 4, y = 9\<rparr>) = CELL_PATH"
proof -
  have p: "position (one_link_grid \<lparr>x = 4, y = 9\<rparr>) = \<lparr>x = 4, y = 9\<rparr>"
    by (simp add: one_link_grid_def updated_cell_def)
  have 1: "links_inside one_link_grid"
    by (auto simp: links_inside_def one_link_grid_def grid_with_start_def updated_cell_def
          start_cell_def zero_cell_def in_grid_def consts_defs)
  have 2: "in_grid (position (one_link_grid \<lparr>x = 4, y = 9\<rparr>))"
    unfolding p by (simp add: in_grid_def consts_defs)
  have 3: "in_grid (parent_position (one_link_grid (position (one_link_grid \<lparr>x = 4, y = 9\<rparr>))))"
    unfolding p by (simp add: one_link_grid_def updated_cell_def start_cell_def in_grid_def consts_defs)
  have 4: "draw_path one_link_grid (one_link_grid \<lparr>x = 4, y = 9\<rparr>) = Inr gr' \<Longrightarrow>
           state (gr' \<lparr>x = 4, y = 9\<rparr>) = CELL_PATH" for gr'
    unfolding draw_path_def p
    by (subst (asm) draw_path_loop.simps)
       (auto simp: one_link_grid_def updated_cell_def grid_with_start_def start_cell_def zero_cell_def
          in_grid_def consts_defs split: if_splits)
  from draw_path_bounded_silent [OF 1 2 3] 4 show ?thesis
    unfolding p by auto
qed

text \<open>
  C5 (the code differs). With 1600 entries in the queue (\<open>idx = QUEUE_SIZE - 1\<close>),
  \<^verbatim>\<open>is_full\<close> is still false, because it tests \<^verbatim>\<open>idx > QUEUE_SIZE - 1\<close>; \<^verbatim>\<open>enqueue\<close> then
  writes \<^verbatim>\<open>cells[1600]\<close>, one past the end of the array, instead of rejecting the entry.
\<close>

theorem enqueue_at_capacity_writes_past_end:
  "idx \<lparr>cells = replicate 1600 zero_cell\<rparr> = QUEUE_SIZE - 1 \<and>
   \<not> is_full \<lparr>cells = replicate 1600 zero_cell\<rparr> \<and>
   enqueue \<lparr>cells = replicate 1600 zero_cell\<rparr> start_cell = Inl Out_of_bounds"
  by (simp add: enqueue_def is_full_def idx_def consts_defs)

text \<open>
  C6 (the code differs). \<^verbatim>\<open>create_barriers\<close> counts a round whose cell is already a
  barrier: for \<open>n_barriers = 2\<close> and the draws (0,0), (0,0) it returns with one barrier
  cell, not two.
\<close>

theorem create_barriers_counts_repeated_draw:
  "\<exists>gr. create_barriers 2 [0, 0, 0, 0] grid_with_target = Some gr \<and>
        {p. in_grid p \<and> state (gr p) = CELL_BARRIER} = {\<lparr>x = 0, y = 0\<rparr>}"
  by (simp add: create_barriers_def grid_with_target_def grid_with_start_def zero_cell_def
        start_cell_def consts_defs in_grid_def) auto

text \<open>
  C7. When the queue is not empty and has just been sorted as at the end of \<^verbatim>\<open>a_star\<close>
  (\<^verbatim>\<open>qsort\<close> with \<^verbatim>\<open>compare_cell_cost\<close>), \<^verbatim>\<open>pop\<close> succeeds, the cell it returns is an entry
  of the queue whose \<open>cost\<close> is least among all entries, and the queue it leaves holds
  the other entries.
\<close>

theorem pop_after_qsort_minimal:
  assumes "\<not> is_empty_queue queue"
  shows "\<exists>c queue'.
           pop (queue\<lparr>cells := qsort compare_cell_cost (cells queue)\<rparr>) = Some (c, queue') \<and>
           c \<in> set (cells queue) \<and>
           (\<forall>e \<in> set (cells queue). cost c \<le> cost e) \<and>
           add_mset c (mset (cells queue')) = mset (cells queue)"
proof -
  let ?xs = "qsort compare_cell_cost (cells queue)"
  from assms have ne: "cells queue \<noteq> []"
    by (auto simp: is_empty_queue_def idx_def)
  then have ne': "?xs \<noteq> []"
    using length_qsort [of compare_cell_cost "cells queue"] by auto
  have p: "pop (queue\<lparr>cells := ?xs\<rparr>) = Some (last ?xs, queue\<lparr>cells := butlast ?xs\<rparr>)"
    using ne' by (simp add: pop_def is_empty_queue_def idx_def)
  have m: "last ?xs \<in> set (cells queue)"
    using ne' last_in_set [of ?xs] by (simp add: set_qsort)
  have l: "\<forall>e \<in> set (cells queue). cost (last ?xs) \<le> cost e"
    using sorted_wrt_last_least [OF sorted_qsort] by (simp add: set_qsort)
  have "butlast ?xs @ [last ?xs] = ?xs"
    using ne' by simp
  then have "mset (butlast ?xs) + {#last ?xs#} = mset ?xs"
    by (metis mset.simps(1) mset.simps(2) mset_append)
  then have r: "add_mset (last ?xs) (mset (cells (queue\<lparr>cells := butlast ?xs\<rparr>))) = mset (cells queue)"
    by (simp add: mset_qsort)
  show ?thesis using p m l r by blast
qed

theorem pop_after_qsort_minimal_witness:
  "\<not> is_empty_queue \<lparr>cells = [zero_cell\<lparr>cost := 5\<rparr>, zero_cell\<lparr>cost := 3\<rparr>, zero_cell\<lparr>cost := 7\<rparr>]\<rparr> \<and>
   (\<exists>c queue'.
      pop (\<lparr>cells = [zero_cell\<lparr>cost := 5\<rparr>, zero_cell\<lparr>cost := 3\<rparr>, zero_cell\<lparr>cost := 7\<rparr>]\<rparr>
            \<lparr>cells := qsort compare_cell_cost
                        [zero_cell\<lparr>cost := 5\<rparr>, zero_cell\<lparr>cost := 3\<rparr>, zero_cell\<lparr>cost := 7\<rparr>]\<rparr>)
        = Some (c, queue') \<and>
      cost c = 3 \<and> map cost (cells queue') = [7, 5])"
proof -
  have ne: "\<not> is_empty_queue \<lparr>cells = [zero_cell\<lparr>cost := 5\<rparr>, zero_cell\<lparr>cost := 3\<rparr>, zero_cell\<lparr>cost := 7\<rparr>]\<rparr>"
    by (simp add: is_empty_queue_def idx_def)
  from pop_after_qsort_minimal [OF ne] ne show ?thesis
    by (simp add: qsort_def compare_cell_cost_def zero_cell_def pop_def is_empty_queue_def idx_def)
qed

text \<open>
  C8. In every state the program reaches (the set-up of \<^verbatim>\<open>main\<close> with the barriers of
  \<^verbatim>\<open>create_barriers\<close>, then any number of calls of \<^verbatim>\<open>a_star\<close>, the path drawing of the
  last one included) the start cell has the state \<^verbatim>\<open>CELL_START\<close> and the target cell the
  state \<^verbatim>\<open>CELL_TARGET\<close>.
\<close>

theorem start_and_target_state_fixed:
  "reachable s \<Longrightarrow>
   state (grid s \<lparr>x = START_X, y = START_Y\<rparr>) = CELL_START \<and>
   state (grid s \<lparr>x = TARGET_X, y = TARGET_Y\<rparr>) = CELL_TARGET"
  using reachable_search_inv [of s]
  by (simp add: search_inv_def ends_fixed_def start_pos_def target_pos_def)
theorem start_and_target_state_fixed_witness:
  "reachable (first_state alley_grid) \<and>
   state (grid (first_state alley_grid) \<lparr>x = START_X, y = START_Y\<rparr>) = CELL_START \<and>
   state (grid (first_state alley_grid) \<lparr>x = TARGET_X, y = TARGET_Y\<rparr>) = CELL_TARGET"
  using start_and_target_state_fixed [OF reachable_first_state [OF alley_grid_created]]
    reachable_first_state [OF alley_grid_created]
  by simp

text \<open>
  C9. Once \<^verbatim>\<open>found_target\<close> is set, a call of \<^verbatim>\<open>a_star\<close> returns at once: the grid, the
  queue, the closed array and the flag are as before.
\<close>

theorem a_star_found_target_noop: "found_target s \<Longrightarrow> a_star s = Inr s"
  by (simp add: a_star_def)

theorem a_star_found_target_noop_witness:
  "found_target \<lparr>grid = grid_with_target, open_nodes_queue = \<lparr>cells = [start_cell]\<rparr>,
                 closed_nodes = [], found_target = True\<rparr> \<and>
   a_star \<lparr>grid = grid_with_target, open_nodes_queue = \<lparr>cells = [start_cell]\<rparr>,
           closed_nodes = [], found_target = True\<rparr> =
   Inr \<lparr>grid = grid_with_target, open_nodes_queue = \<lparr>cells = [start_cell]\<rparr>,
        closed_nodes = [], found_target = True\<rparr>"
  using a_star_found_target_noop
    [of "\<lparr>grid = grid_with_target, open_nodes_queue = \<lparr>cells = [start_cell]\<rparr>,
          closed_nodes = [], found_target = True\<rparr>"]
  by simp


end
